theory Spec2Isabelle
  imports Main "HOL-Library.Multiset"
begin

section \<open>Data model of \<open>main.go\<close>\<close>

text \<open>
  Modelled from the spec: \<open>module.Module\<close> is declared in package \<open>module\<close>, outside
  \<open>main.go\<close>. The spec gives a module a path, a version and a content hash, all
  strings; \<open>main.go\<close> reads them as \<open>m.Path\<close>, \<open>m.Version\<close> and \<open>m.Hash\<close>. (The
  field names carry a prefix here, so that the structs declared in \<open>main.go\<close> itself
  keep their own names.)
\<close>

record Module =
  mPath :: string
  mVersion :: string
  mHash :: string

text \<open>
  Modelled from the spec: \<open>license.License\<close> is declared in package \<open>license\<close>. The
  spec gives a License Record a name and an SPDX identifier; \<open>main.go\<close> reads and writes
  them as \<open>Name\<close> and \<open>SPDX\<close>. A \<open>*license.License\<close> that is \<open>nil\<close> is \<open>None\<close>.
\<close>

record License =
  Name :: string
  lSPDX :: string

text \<open>
  \<open>moduleVersionLicense\<close> (lines 31-38). A \<open>time.Time\<close> is a point on the clock,
  here a natural number; \<open>time.Now()\<close> is an input of the step that reads it.
\<close>

record moduleVersionLicense =
  Version :: string
  License :: string
  SPDX :: string
  Hash :: string
  Created :: nat
  LastUsed :: nat

text \<open>
  A Go slice is a header (backing array, length) and copying a struct that holds a slice
  copies the header only. \<open>readFile\<close> copies every \<open>cachedModule\<close> of
  \<open>cacheData.Modules\<close> into \<open>cacheDataLookup\<close>, so both share the backing arrays of
  the \<open>VerLic\<close> slices. The backing arrays therefore live in an explicit heap: a list of
  arrays, addressed by position.
\<close>

record slice =
  arr :: nat
  len :: nat

record cachedModule =
  Path :: string
  VerLic :: slice

type_synonym heap = "moduleVersionLicense list list"

text \<open>
  The array at an address, and the elements a header reaches. Go has no dangling
  pointer; an address outside the heap, which no run produces, reads as the empty array.
\<close>

definition backing :: "heap \<Rightarrow> nat \<Rightarrow> moduleVersionLicense list" where
  "backing h a = (if a < length h then h ! a else [])"

definition elems :: "heap \<Rightarrow> slice \<Rightarrow> moduleVersionLicense list" where
  "elems h sl = take (len sl) (backing h (arr sl))"

text \<open>
  What the sinks and the lookup strategies see, in the order it happens: \<open>out.Start\<close>,
  every call of \<open>license.Find\<close> and \<open>license.Translate\<close> with its argument, and
  \<open>out.Finish\<close> with the license (or \<open>nil\<close>) and the error (or \<open>nil\<close>).
\<close>

datatype event =
    Start Module
  | FindCall Module
  | TranslateCall Module
  | Finish Module "License option" "string option"

text \<open>
  The variables the goroutines of \<open>realMain\<close> share: \<open>count\<close>, the package variables
  \<open>cacheData\<close> (its only field, \<open>Modules\<close>) and \<open>cacheDataLookup\<close>, the heap of
  backing arrays, and the trace of events.
\<close>

record store =
  count :: nat
  cacheData :: "cachedModule list"
  cacheDataLookup :: "string \<rightharpoonup> cachedModule"
  heap :: heap
  trace :: "event list"

text \<open>
  What \<open>realMain\<close> fixes before it starts the lookups: the \<open>-cache\<close> flag, and the
  finder and translator chains. \<open>license.Find(ctx, m, fs)\<close> and
  \<open>license.Translate(ctx, m, ts)\<close> are functions of package \<open>license\<close>; they are
  parameters here. \<open>Find\<close> returns the pair \<open>(lic, err)\<close>, each possibly \<open>nil\<close>.
\<close>

record env =
  flagCache :: string
  Find :: "Module \<Rightarrow> License option \<times> string option"
  Translate :: "Module \<Rightarrow> Module"

text \<open>
  A goroutine returns, ends the process with \<open>os.Exit(1)\<close>, or ends it with a runtime
  panic (an index out of range).
\<close>

datatype 'a outcome =
    is_Exited: Exited (final: 'a)
  | is_Panicked: Panicked (final: 'a)
  | is_Returned: Returned (final: 'a)

section \<open>The body of a lookup goroutine (lines 236-303)\<close>

definition emit :: "event \<Rightarrow> store \<Rightarrow> store" where
  "emit e s = s\<lparr>trace := trace s @ [e]\<rparr>"

text \<open>
  Lines 248-256: the loop over \<open>cca.VerLic\<close>. \<open>vvk\<close> is the index of the element at
  hand, the pair is \<open>(found, index)\<close>; \<open>None\<close> is \<open>os.Exit(1)\<close>.
\<close>

fun scan :: "Module \<Rightarrow> moduleVersionLicense list \<Rightarrow> nat \<Rightarrow> bool \<times> nat \<Rightarrow> (bool \<times> nat) option" where
  "scan m [] vvk acc = Some acc"
| "scan m (vv # vs) vvk acc =
     (if Version vv = mVersion m then
        (if Hash vv \<noteq> mHash m then None
         else scan m vs (Suc vvk) (True, vvk))
      else scan m vs (Suc vvk) acc)"

text \<open>
  Lines 259-262, the cache hit: \<open>ccc\<close> is a copy of the map's entry and shares its backing
  array, so the assignment to \<open>ccc.VerLic[index].LastUsed\<close> writes the heap; the license
  is read from \<open>cca.VerLic[index]\<close> after that write. Indexing past the length of a
  slice panics, and so does indexing the \<open>nil\<close> slice of the zero value that a missing key
  gives.
\<close>

definition cache_hit :: "Module \<Rightarrow> nat \<Rightarrow> cachedModule \<Rightarrow> nat \<Rightarrow> store \<Rightarrow> store outcome" where
  "cache_hit m now cca index s =
     (case cacheDataLookup s (mPath m) of
        None \<Rightarrow> Panicked s
      | Some ccc \<Rightarrow>
          if \<not> index < length (elems (heap s) (VerLic ccc)) then Panicked s
          else
            (let a = arr (VerLic ccc);
                 h = (heap s)[a := (backing (heap s) a)[index := (backing (heap s) a ! index)\<lparr>LastUsed := now\<rparr>]];
                 s1 = s\<lparr>heap := h\<rparr>
             in if \<not> index < length (elems h (VerLic cca)) then Panicked s1
                else
                  (let vv = elems h (VerLic cca) ! index;
                       lic = \<lparr>Name = License vv, lSPDX = SPDX vv\<rparr>;
                       s2 = s1\<lparr>cacheDataLookup := (cacheDataLookup s1)(mPath m \<mapsto> ccc)\<rparr>
                   in Returned (emit (Finish m (Some lic) None) s2))))"

text \<open>
  Lines 267-270 and 298-301: the untranslated module first, the translated one when that
  gave no license or an error.
\<close>

definition find_or_translate :: "env \<Rightarrow> Module \<Rightarrow> store \<Rightarrow> (License option \<times> string option) \<times> store" where
  "find_or_translate env m s =
     (let r = Find env m;
          s1 = emit (FindCall m) s
      in if fst r = None \<or> snd r \<noteq> None then
           (let m' = Translate env m;
                s2 = emit (TranslateCall m) s1
            in (Find env m', emit (FindCall m') s2))
         else (r, s1))"

text \<open>
  Lines 273-291. With an entry for the path, \<open>append\<close> gives a new header to the local
  copy \<open>c2\<close> and nothing stores \<open>c2\<close>: the headers held by \<open>cacheData\<close> and
  \<open>cacheDataLookup\<close> keep their length. (With spare capacity Go writes the element
  behind that length in the old array, otherwise into a new array; no header that is ever
  read reaches it in either case. The model allocates.) Without an entry, a new
  \<open>cachedModule\<close> goes to the end of \<open>cacheData.Modules\<close>. The two calls of
  \<open>time.Now()\<close> (lines 280-281) read the clock within the one step: both give \<open>now\<close>.
\<close>

definition cache_insert :: "Module \<Rightarrow> License \<Rightarrow> nat \<Rightarrow> store \<Rightarrow> store" where
  "cache_insert m lic now s =
     (let newVerLic = \<lparr>Version = mVersion m, License = Name lic, SPDX = lSPDX lic,
                       Hash = mHash m, Created = now, LastUsed = now\<rparr>
      in case cacheDataLookup s (mPath m) of
           Some c2 \<Rightarrow> s\<lparr>heap := heap s @ [elems (heap s) (VerLic c2) @ [newVerLic]]\<rparr>
         | None \<Rightarrow>
             s\<lparr>heap := heap s @ [[newVerLic]],
               cacheData := cacheData s @
                 [\<lparr>Path = mPath m, VerLic = \<lparr>arr = length (heap s), len = 1\<rparr>\<rparr>]\<rparr>)"

text \<open>Lines 264-292: the else branch under a cache.\<close>

definition cache_miss :: "env \<Rightarrow> Module \<Rightarrow> nat \<Rightarrow> store \<Rightarrow> store" where
  "cache_miss env m now s =
     (let s1 = s\<lparr>count := count s + 1\<rparr>;
          (r, s2) = find_or_translate env m s1;
          s3 = (case r of
                  (Some lic, None) \<Rightarrow> cache_insert m lic now s2
                | _ \<Rightarrow> s2)
      in emit (Finish m (fst r) (snd r)) s3)"

text \<open>Lines 295-301: no cache.\<close>

definition no_cache :: "env \<Rightarrow> Module \<Rightarrow> store \<Rightarrow> store" where
  "no_cache env m s =
     (let s1 = s\<lparr>count := count s + 1\<rparr>;
          (r, s2) = find_or_translate env m s1
      in emit (Finish m (fst r) (snd r)) s2)"

text \<open>
  Lines 239-303, from \<open>out.Start\<close> to \<open>out.Finish\<close>, with \<open>now\<close> the reading of the
  clock. \<open>found\<close> stays false when the path has no entry.
\<close>

definition module_task :: "env \<Rightarrow> Module \<Rightarrow> nat \<Rightarrow> store \<Rightarrow> store outcome" where
  "module_task env m now s0 =
     (let s = emit (Start m) s0
      in if flagCache env \<noteq> [] then
           (case cacheDataLookup s (mPath m) of
              None \<Rightarrow> Returned (cache_miss env m now s)
            | Some cca \<Rightarrow>
                (case scan m (elems (heap s) (VerLic cca)) 0 (False, 0) of
                   None \<Rightarrow> Exited s
                 | Some (found, index) \<Rightarrow>
                     if found then cache_hit m now cca index s
                     else Returned (cache_miss env m now s)))
         else Returned (no_cache env m s))"

section \<open>The cache file\<close>

text \<open>
  The content of the cache file, as \<open>encoding/json\<close> reads and writes it: the list
  \<open>Modules\<close>, each module with its path and its \<open>verlic\<close> list.
\<close>

type_synonym cache_json = "(string \<times> moduleVersionLicense list) list"

text \<open>\<open>json.Unmarshal\<close> (line 75) builds every \<open>VerLic\<close> slice on an array of its own.\<close>

fun unmarshal :: "cache_json \<Rightarrow> heap \<Rightarrow> cachedModule list \<times> heap" where
  "unmarshal [] h = ([], h)"
| "unmarshal ((p, vls) # js) h =
     (let (cms, h') = unmarshal js (h @ [vls])
      in (\<lparr>Path = p, VerLic = \<lparr>arr = length h, len = length vls\<rparr>\<rparr> # cms, h'))"

text \<open>
  \<open>readFile\<close> (lines 59-86). The argument is what \<open>json.Unmarshal\<close> (line 75) stores
  into \<open>cacheData\<close>: \<open>Some js\<close> when it stores the modules \<open>js\<close> (also when it then
  returns an error, which line 76 only prints), \<open>None\<close> when it stores nothing (a file
  that cannot be opened, or content from which no module is decoded), so that
  \<open>cacheData\<close> stays as it was. The lookup table is built in both cases, and a later
  module of the same path replaces an earlier one (line 84).
\<close>

definition readFile :: "cache_json option \<Rightarrow> store \<Rightarrow> store" where
  "readFile file s =
     (let s1 = (case file of
                  None \<Rightarrow> s
                | Some js \<Rightarrow>
                    (let (cms, h) = unmarshal js (heap s)
                     in s\<lparr>cacheData := cms, heap := h\<rparr>))
      in s1\<lparr>cacheDataLookup := fold (\<lambda>cc lk. lk(Path cc \<mapsto> cc)) (cacheData s1) Map.empty\<rparr>)"

text \<open>\<open>json.Marshal(cacheData)\<close> (line 316) follows every header into the heap.\<close>

definition marshal :: "store \<Rightarrow> cache_json" where
  "marshal s = map (\<lambda>cc. (Path cc, elems (heap s) (VerLic cc))) (cacheData s)"

section \<open>Collecting the modules (lines 140-177)\<close>

text \<open>
  \<open>allMods\<close> is a Go map whose key is the whole \<open>module.Module\<close> struct. The argument
  is what \<open>module.ParseExeData\<close> gave for each executable, in order.
\<close>

definition allMods :: "Module list list \<Rightarrow> (Module \<rightharpoonup> unit)" where
  "allMods exes = fold (\<lambda>mods acc. fold (\<lambda>m acc. acc(m \<mapsto> ())) mods acc) exes Map.empty"

text \<open>
  Lines 174-177 range over the map. Go leaves the order of a \<open>range\<close> over a map open:
  \<open>mods\<close> is any list that holds every key once.
\<close>

definition range_order :: "(Module \<rightharpoonup> unit) \<Rightarrow> Module list \<Rightarrow> bool" where
  "range_order mp mods \<longleftrightarrow> distinct mods \<and> set mods = dom mp"

section \<open>The goroutines of \<open>realMain\<close> (lines 221-324)\<close>

text \<open>
  Modelled from the spec: \<open>NewSemaphore\<close> is declared in another file of the
  repository. The spec calls the semaphore a counting semaphore capped at 5 concurrently
  running tasks; its state is the number of free slots, all free at first.
\<close>

definition NewSemaphore :: "nat \<Rightarrow> nat" where
  "NewSemaphore n = n"

text \<open>
  Modelled from the spec: \<open>Acquire\<close> is declared with \<open>NewSemaphore\<close>. By the spec a
  task must acquire the semaphore before its work and waits while no slot is free:
  \<open>Acquire\<close> takes a free slot, and blocks (\<open>None\<close>) when there is none.
\<close>

definition Acquire :: "nat \<Rightarrow> nat option" where
  "Acquire free = (if 0 < free then Some (free - 1) else None)"

text \<open>
  Modelled from the spec: \<open>Release\<close> is declared with \<open>NewSemaphore\<close>. By the spec a
  task releases the semaphore before it returns: \<open>Release\<close> gives the slot back.
\<close>

definition Release :: "nat \<Rightarrow> nat" where
  "Release free = free + 1"

text \<open>
  Where a lookup goroutine stands: started by \<open>go\<close> and not yet past \<open>sem.Acquire()\<close>;
  holding a slot, before its body; past \<open>out.Finish\<close> with the deferred
  \<open>sem.Release()\<close> and \<open>wg.Done()\<close> still to run; done.
\<close>

datatype pc = Spawned | Holding | Returning | Done

text \<open>
  Where the main goroutine stands: at the head of the loop of line 225 with the modules
  still to come; at the test of line 306; in \<open>wg.Wait()\<close>; past the write of the cache
  file.
\<close>

datatype phase = Loop "Module list" | Check "Module list" | Wait | Closed

text \<open>
  The process: the shared variables, the lookup goroutines in the order of their start,
  the free slots of the semaphore, the main goroutine, the exit status once the process
  has ended early, and the cache file on disk (\<open>None\<close>: no readable file).
\<close>

record proc =
  st :: store
  tasks :: "(Module \<times> pc) list"
  sem :: nat
  mainpc :: phase
  exit_code :: "nat option"
  disk :: "cache_json option"

text \<open>
  The state at line 221: the cache file is read when \<open>-cache\<close> is given (lines 119-121),
  \<open>mods\<close> is the list of lines 174-177.
\<close>

definition boot :: "env \<Rightarrow> cache_json option \<Rightarrow> Module list \<Rightarrow> proc" where
  "boot env file mods =
     (let s0 = \<lparr>count = 0, cacheData = [], cacheDataLookup = Map.empty, heap = [], trace = []\<rparr>
      in \<lparr>st = (if flagCache env \<noteq> [] then readFile file s0 else s0),
          tasks = [],
          sem = NewSemaphore 5,
          mainpc = Loop mods,
          exit_code = None,
          disk = file\<rparr>)"

text \<open>
  One step of the main goroutine. Lines 225-228: \<open>count++\<close>, \<open>wg.Add(1)\<close> and the
  \<open>go\<close> statement. Lines 306-308: the loop ends when \<open>count > 5\<close>. Line 312:
  \<open>wg.Wait()\<close> blocks until every started goroutine is done. Lines 314-324: the cache
  file is written when \<open>-cache\<close> is given (the write itself is taken to succeed).
\<close>

definition main_step :: "env \<Rightarrow> proc \<Rightarrow> proc" where
  "main_step env p =
     (case mainpc p of
        Loop [] \<Rightarrow> p\<lparr>mainpc := Wait\<rparr>
      | Loop (m # ms) \<Rightarrow>
          p\<lparr>st := (st p)\<lparr>count := count (st p) + 1\<rparr>,
            tasks := tasks p @ [(m, Spawned)],
            mainpc := Check ms\<rparr>
      | Check ms \<Rightarrow> if count (st p) > 5 then p\<lparr>mainpc := Wait\<rparr> else p\<lparr>mainpc := Loop ms\<rparr>
      | Wait \<Rightarrow>
          if list_all (\<lambda>t. snd t = Done) (tasks p) then
            (if flagCache env \<noteq> [] then p\<lparr>disk := Some (marshal (st p)), mainpc := Closed\<rparr>
             else p\<lparr>mainpc := Closed\<rparr>)
          else p
      | Closed \<Rightarrow> p)"

text \<open>
  One step of the lookup goroutine number \<open>i\<close> (lines 228-304), with the clock at
  \<open>now\<close>. The body between \<open>sem.Acquire()\<close> and the deferred calls is one step.
  \<open>os.Exit(1)\<close> ends the process with status 1, a runtime panic with status 2.
\<close>

definition task_step :: "env \<Rightarrow> nat \<Rightarrow> nat \<Rightarrow> proc \<Rightarrow> proc" where
  "task_step env i now p =
     (case tasks p ! i of
        (m, Spawned) \<Rightarrow>
          (case Acquire (sem p) of
             None \<Rightarrow> p
           | Some free \<Rightarrow> p\<lparr>sem := free, tasks := (tasks p)[i := (m, Holding)]\<rparr>)
      | (m, Holding) \<Rightarrow>
          (case module_task env m now (st p) of
             Exited s \<Rightarrow> p\<lparr>st := s, exit_code := Some 1\<rparr>
           | Panicked s \<Rightarrow> p\<lparr>st := s, exit_code := Some 2\<rparr>
           | Returned s \<Rightarrow> p\<lparr>st := s, tasks := (tasks p)[i := (m, Returning)]\<rparr>)
      | (m, Returning) \<Rightarrow> p\<lparr>sem := Release (sem p), tasks := (tasks p)[i := (m, Done)]\<rparr>
      | (m, Done) \<Rightarrow> p)"

text \<open>
  The scheduler picks the goroutine that moves next; a schedule is the list of its
  choices. A goroutine that is blocked, or that does not exist, does not move, and nothing
  moves once the process has ended. The goroutines share \<open>count\<close> and the cache
  variables without a lock; their accesses interleave at the grain of these steps, each
  step taken as a whole. The assignment to the shared \<open>ctx\<close> (line 236) only feeds the
  status listener and is left out.
\<close>

datatype action = Main | Task nat nat

definition step :: "env \<Rightarrow> action \<Rightarrow> proc \<Rightarrow> proc" where
  "step env a p =
     (if exit_code p \<noteq> None then p
      else case a of
             Main \<Rightarrow> main_step env p
           | Task i now \<Rightarrow> if i < length (tasks p) then task_step env i now p else p)"

fun exec :: "env \<Rightarrow> action list \<Rightarrow> proc \<Rightarrow> proc" where
  "exec env [] p = p"
| "exec env (a # as) p = exec env as (step env a p)"

section \<open>Observations of a run\<close>

text \<open>The number of lookup goroutines that hold a slot of the semaphore.\<close>

definition holders :: "proc \<Rightarrow> nat" where
  "holders p = length (filter (\<lambda>t. snd t = Holding \<or> snd t = Returning) (tasks p))"

text \<open>The modules that \<open>out.Finish\<close> has reported, in the order of the reports.\<close>

fun finished_of :: "event \<Rightarrow> Module list" where
  "finished_of (Finish m lic err) = [m]"
| "finished_of e = []"

definition finished :: "event list \<Rightarrow> Module list" where
  "finished tr = concat (map finished_of tr)"

text \<open>The modules whose goroutine is past its body.\<close>

definition returned :: "proc \<Rightarrow> Module list" where
  "returned p = map fst (filter (\<lambda>t. snd t = Returning \<or> snd t = Done) (tasks p))"

text \<open>
  The loop of lines 225-309 and the goroutines it has started: the goroutines are the
  modules of a prefix of \<open>mods\<close>, in order, and \<open>count\<close> is at least their number;
  the loop is entered with at most 5 of them started.
\<close>

definition spawn_inv :: "Module list \<Rightarrow> proc \<Rightarrow> bool" where
  "spawn_inv mods p \<longleftrightarrow>
     length (tasks p) \<le> count (st p) \<and>
     (case mainpc p of
        Loop ms \<Rightarrow> map fst (tasks p) @ ms = mods \<and> length (tasks p) \<le> 5
      | Check ms \<Rightarrow> map fst (tasks p) @ ms = mods \<and> length (tasks p) \<le> 6
      | Wait \<Rightarrow> map fst (tasks p) = take (length (tasks p)) mods \<and> length (tasks p) \<le> 6
      | Closed \<Rightarrow> map fst (tasks p) = take (length (tasks p)) mods \<and> length (tasks p) \<le> 6)"

text \<open>
  Where a sub-record of the cache comes from. It is reported, when some \<open>Finish\<close> of the
  trace carries a license and no error for a module of this path, version and hash, with
  this license name and SPDX. It is from the file, when the file has it under this path,
  but for \<open>LastUsed\<close>. A list of entries is in order when each of its sub-records is one
  or the other.
\<close>

fun reports :: "string \<Rightarrow> moduleVersionLicense \<Rightarrow> event \<Rightarrow> bool" where
  "reports p vv (Finish m (Some lic) None) \<longleftrightarrow>
     p = mPath m \<and> Version vv = mVersion m \<and> License vv = Name lic \<and>
     SPDX vv = lSPDX lic \<and> Hash vv = mHash m"
| "reports p vv e \<longleftrightarrow> False"

definition from_report :: "event list \<Rightarrow> string \<Rightarrow> moduleVersionLicense \<Rightarrow> bool" where
  "from_report tr p vv = list_ex (reports p vv) tr"

definition from_file :: "cache_json \<Rightarrow> string \<Rightarrow> moduleVersionLicense \<Rightarrow> bool" where
  "from_file js p vv =
     list_ex (\<lambda>e. fst e = p \<and> list_ex (\<lambda>vv0. vv\<lparr>LastUsed := LastUsed vv0\<rparr> = vv0) (snd e)) js"

definition records_ok :: "cache_json \<Rightarrow> event list \<Rightarrow> cache_json \<Rightarrow> bool" where
  "records_ok js tr out =
     list_all (\<lambda>e. list_all (\<lambda>vv. from_file js (fst e) vv \<or> from_report tr (fst e) vv) (snd e)) out"

text \<open>
  Every header of \<open>cacheData\<close> points into the heap; with that, the content of
  \<open>cacheData\<close> is in order with respect to the file read and the trace.
\<close>

definition wf_store :: "store \<Rightarrow> bool" where
  "wf_store s \<longleftrightarrow> list_all (\<lambda>cc. arr (VerLic cc) < length (heap s)) (cacheData s)"

definition cache_inv :: "cache_json \<Rightarrow> store \<Rightarrow> bool" where
  "cache_inv js s \<longleftrightarrow> wf_store s \<and> records_ok js (trace s) (marshal s)"

text \<open>Once the main goroutine is past line 324, every lookup goroutine is done and the file holds \<open>cacheData\<close>.\<close>

definition closed_inv :: "env \<Rightarrow> proc \<Rightarrow> bool" where
  "closed_inv env p \<longleftrightarrow>
     (mainpc p = Closed \<longrightarrow>
        list_all (\<lambda>t. snd t = Done) (tasks p) \<and>
        (flagCache env \<noteq> [] \<longrightarrow> disk p = Some (marshal (st p))))"

text \<open>
  A pair of path and version is resolved in a trace when some \<open>Finish\<close> carries a license
  and no error for a module of that path and version. The modules a trace leaves
  unresolved are those of the \<open>Finish\<close> events with no license or with an error.
\<close>

fun resolves :: "string \<Rightarrow> string \<Rightarrow> event \<Rightarrow> bool" where
  "resolves q v (Finish m (Some lic) None) \<longleftrightarrow> mPath m = q \<and> mVersion m = v"
| "resolves q v e \<longleftrightarrow> False"

definition resolved :: "event list \<Rightarrow> string \<Rightarrow> string \<Rightarrow> bool" where
  "resolved tr q v = list_ex (resolves q v) tr"

fun failed_of :: "event \<Rightarrow> Module list" where
  "failed_of (Finish m lic err) = (if lic = None \<or> err \<noteq> None then [m] else [])"
| "failed_of e = []"

definition unresolved :: "event list \<Rightarrow> Module list" where
  "unresolved tr = concat (map failed_of tr)"

text \<open>
  The versions the loop of lines 248-256 meets for a path: those of the entry that
  \<open>cacheDataLookup\<close> holds. The versions a cache file offers for a path: those of its
  last entry of that path.
\<close>

definition lookup_versions :: "store \<Rightarrow> string \<Rightarrow> string list" where
  "lookup_versions s q =
     (case cacheDataLookup s q of
        None \<Rightarrow> []
      | Some cca \<Rightarrow> map Version (elems (heap s) (VerLic cca)))"

definition file_versions :: "cache_json \<Rightarrow> string \<Rightarrow> string list" where
  "file_versions js q =
     (case find (\<lambda>e. fst e = q) (rev js) of
        None \<Rightarrow> []
      | Some e \<Rightarrow> map Version (snd e))"

text \<open>
  The shared variables right after \<open>readFile\<close>: the lookup table holds, for every path,
  the last entry of \<open>cacheData\<close> with that path.
\<close>

definition fresh :: "store \<Rightarrow> bool" where
  "fresh s \<longleftrightarrow> (\<forall>q. cacheDataLookup s q = find (\<lambda>cc. Path cc = q) (rev (cacheData s)))"

text \<open>
  How the shared variables \<open>s\<close> of a run relate to those at its start, \<open>s0\<close>: the
  lookup table is the same; the entries read from the file are in place with their
  versions; the entries added since are for paths the lookup table does not have, and
  their versions are resolved in the trace; and no module left unresolved has its version
  under the lookup table.
\<close>

definition grown :: "store \<Rightarrow> store \<Rightarrow> bool" where
  "grown s0 s \<longleftrightarrow>
     cacheDataLookup s = cacheDataLookup s0 \<and>
     (\<forall>cc\<in>set (cacheData s0).
        arr (VerLic cc) < length (heap s) \<and>
        map Version (elems (heap s) (VerLic cc)) = map Version (elems (heap s0) (VerLic cc))) \<and>
     (\<exists>news. cacheData s = cacheData s0 @ news \<and>
        (\<forall>e\<in>set news.
           arr (VerLic e) < length (heap s) \<and> cacheDataLookup s0 (Path e) = None \<and>
           (\<forall>v\<in>set (map Version (elems (heap s) (VerLic e))). resolved (trace s) (Path e) v))) \<and>
     (\<forall>m\<in>set (unresolved (trace s)). mVersion m \<notin> set (lookup_versions s0 (mPath m)))"

section \<open>Example inputs\<close>

text \<open>
  One module, a finder that knows the path \<open>x/a\<close> only, a run with \<open>-cache\<close> and a
  run without, and cache files that hold the module's version with the module's hash,
  with another hash, and with both.
\<close>

definition ex_a :: Module where
  "ex_a = \<lparr>mPath = ''x/a'', mVersion = ''v1'', mHash = ''h1''\<rparr>"

definition ex_find :: "Module \<Rightarrow> License option \<times> string option" where
  "ex_find m =
     (if mPath m = ''x/a'' then (Some \<lparr>Name = ''MIT'', lSPDX = ''MIT''\<rparr>, None)
      else (None, Some ''not found''))"

definition ex_cached :: env where
  "ex_cached = \<lparr>flagCache = ''c.json'', Find = ex_find, Translate = (\<lambda>m. m)\<rparr>"

definition ex_plain :: env where
  "ex_plain = \<lparr>flagCache = [], Find = ex_find, Translate = (\<lambda>m. m\<lparr>mPath := ''x/a''\<rparr>)\<rparr>"

definition ex_h1 :: moduleVersionLicense where
  "ex_h1 = \<lparr>Version = ''v1'', License = ''BSD'', SPDX = ''BSD'', Hash = ''h1'', Created = 1, LastUsed = 9\<rparr>"

definition ex_h2 :: moduleVersionLicense where
  "ex_h2 = \<lparr>Version = ''v1'', License = ''MIT'', SPDX = ''MIT'', Hash = ''h2'', Created = 1, LastUsed = 2\<rparr>"

definition ex_file_h1 :: cache_json where
  "ex_file_h1 = [(''x/a'', [ex_h1])]"

definition ex_file_h2 :: cache_json where
  "ex_file_h2 = [(''x/a'', [ex_h2])]"

definition ex_file_both :: cache_json where
  "ex_file_both = [(''x/a'', [ex_h1, ex_h2])]"

text \<open>A file that holds the module's version with the module's hash twice.\<close>

definition ex_h1_later :: moduleVersionLicense where
  "ex_h1_later = \<lparr>Version = ''v1'', License = ''MIT'', SPDX = ''MIT'', Hash = ''h1'', Created = 3, LastUsed = 4\<rparr>"

definition ex_file_twice :: cache_json where
  "ex_file_twice = [(''x/a'', [ex_h1, ex_h1_later])]"

text \<open>The shared variables at line 221, after \<open>readFile\<close>.\<close>

definition ex_store :: "cache_json \<Rightarrow> store" where
  "ex_store js = st (boot ex_cached (Some js) [ex_a])"

definition ex_entry :: "nat \<Rightarrow> cachedModule" where
  "ex_entry n = \<lparr>Path = ''x/a'', VerLic = \<lparr>arr = 0, len = n\<rparr>\<rparr>"

text \<open>The process with the goroutine of \<open>ex_a\<close> past \<open>sem.Acquire()\<close>.\<close>

definition ex_holding :: "cache_json \<Rightarrow> proc" where
  "ex_holding js = exec ex_cached [Main, Task 0 0] (boot ex_cached (Some js) [ex_a])"

text \<open>
  A schedule for one module: the main goroutine leaves its loop, the lookup goroutine
  runs with the clock at \<open>now\<close>, the main goroutine writes the cache file.
\<close>

definition ex_sched :: "nat \<Rightarrow> action list" where
  "ex_sched now = [Main, Main, Main, Task 0 now, Task 0 now, Task 0 now, Main]"

text \<open>
  More modules: one the finder does not know; \<open>ex_a\<close> with another hash; another
  version of \<open>ex_a\<close>; seven versions of one path.
\<close>

definition ex_unknown :: Module where
  "ex_unknown = \<lparr>mPath = ''y/b'', mVersion = ''v1'', mHash = ''h1''\<rparr>"

definition ex_a_h2 :: Module where
  "ex_a_h2 = \<lparr>mPath = ''x/a'', mVersion = ''v1'', mHash = ''h2''\<rparr>"

definition ex_b :: Module where
  "ex_b = \<lparr>mPath = ''x/a'', mVersion = ''v2'', mHash = ''h2''\<rparr>"

definition ex_seven :: "Module list" where
  "ex_seven = map (\<lambda>v. \<lparr>mPath = ''x/a'', mVersion = v, mHash = ''h1''\<rparr>)
                [''v1'', ''v2'', ''v3'', ''v4'', ''v5'', ''v6'', ''v7'']"

text \<open>
  A schedule for two modules: the main goroutine leaves its loop, the first lookup
  goroutine runs, then the second, then the main goroutine writes the cache file.
\<close>

definition ex_sched2 :: "nat \<Rightarrow> action list" where
  "ex_sched2 now =
     [Main, Main, Main, Main, Main,
      Task 0 now, Task 0 now, Task 0 now,
      Task 1 now, Task 1 now, Task 1 now, Main]"

text \<open>
  Two runs in sequence on one cache file, empty at first: the second run reads what the
  first has written.
\<close>

definition ex_first_run :: proc where
  "ex_first_run = exec ex_cached (ex_sched2 7) (boot ex_cached (Some []) [ex_a, ex_b])"

definition ex_second_run :: proc where
  "ex_second_run = exec ex_cached (ex_sched2 8) (boot ex_cached (disk ex_first_run) [ex_a, ex_b])"

text \<open>
  A run that leaves \<open>ex_unknown\<close> unresolved, and the next run on the cache file it
  wrote, with the goroutine of \<open>ex_unknown\<close> past \<open>sem.Acquire()\<close>.
\<close>

definition ex_failed_run :: proc where
  "ex_failed_run = exec ex_cached (ex_sched 7) (boot ex_cached (Some ex_file_h1) [ex_unknown])"

definition ex_next_run :: proc where
  "ex_next_run = exec ex_cached [Main, Task 0 0] (boot ex_cached (disk ex_failed_run) [ex_unknown])"

text \<open>
  A module of the path and version of \<open>ex_a\<close> with a third hash, and the run that looks
  it up on the cache file \<open>ex_first_run\<close> wrote: the file's first entry for the path
  holds the version with another hash.
\<close>

definition ex_a_h9 :: Module where
  "ex_a_h9 = \<lparr>mPath = ''x/a'', mVersion = ''v1'', mHash = ''h9''\<rparr>"

definition ex_shadowed_run :: proc where
  "ex_shadowed_run = exec ex_cached (ex_sched 8) (boot ex_cached (disk ex_first_run) [ex_a_h9])"

text \<open>
  A cache file that holds the seventh module of \<open>ex_seven\<close> with another hash, a
  schedule for seven modules (the main goroutine first, then each lookup goroutine in
  turn, then the main goroutine again), and the run of \<open>ex_seven\<close> on that file.
\<close>

definition ex_file_v7 :: cache_json where
  "ex_file_v7 =
     [(''x/a'', [\<lparr>Version = ''v7'', License = ''MIT'', SPDX = ''MIT'', Hash = ''h2'',
                  Created = 1, LastUsed = 2\<rparr>])]"

definition ex_sched7 :: "nat \<Rightarrow> action list" where
  "ex_sched7 now =
     [Main, Main, Main, Main, Main, Main, Main, Main, Main, Main, Main, Main,
      Task 0 now, Task 0 now, Task 0 now, Task 1 now, Task 1 now, Task 1 now,
      Task 2 now, Task 2 now, Task 2 now, Task 3 now, Task 3 now, Task 3 now,
      Task 4 now, Task 4 now, Task 4 now, Task 5 now, Task 5 now, Task 5 now,
      Task 6 now, Task 6 now, Task 6 now, Main]"

definition ex_seven_run :: proc where
  "ex_seven_run = exec ex_cached (ex_sched7 8) (boot ex_cached (Some ex_file_v7) ex_seven)"

section \<open>The loop over the sub-records\<close>

lemma scan_None_iff:
  "scan m vs k acc = None \<longleftrightarrow> (\<exists>vv\<in>set vs. Version vv = mVersion m \<and> Hash vv \<noteq> mHash m)"
  by (induction vs arbitrary: k acc) auto

lemma scan_no_version:
  "\<forall>vv\<in>set vs. Version vv \<noteq> mVersion m \<Longrightarrow> scan m vs k acc = Some acc"
  by (induction vs arbitrary: k acc) auto

lemma scan_last:
  assumes "\<forall>vv\<in>set vs. Version vv = mVersion m \<longrightarrow> Hash vv = mHash m"
    and "i < length vs" and "Version (vs ! i) = mVersion m"
    and "\<forall>j. i < j \<and> j < length vs \<longrightarrow> Version (vs ! j) \<noteq> mVersion m"
  shows "scan m vs k acc = Some (True, k + i)"
  using assms
proof (induction vs arbitrary: k acc i)
  case Nil
  then show ?case by simp
next
  case (Cons vv vs)
  show ?case
  proof (cases i)
    case 0
    have "\<forall>x\<in>set vs. Version x \<noteq> mVersion m"
    proof
      fix x assume "x \<in> set vs"
      then obtain j where "j < length vs" "vs ! j = x" by (auto simp: in_set_conv_nth)
      with Cons.prems(4) 0 show "Version x \<noteq> mVersion m" by (auto dest: spec [of _ "Suc j"])
    qed
    with Cons.prems 0 show ?thesis by (simp add: scan_no_version)
  next
    case (Suc i')
    have ih: "scan m vs (Suc k) acc' = Some (True, Suc k + i')" for acc'
      using Cons.prems Suc by (intro Cons.IH) auto
    show ?thesis using Cons.prems(1) Suc ih by auto
  qed
qed

section \<open>Slices and the heap\<close>

lemma elems_in_heap:
  "i < length (elems h sl) \<Longrightarrow> arr sl < length h \<and> i < len sl \<and> i < length (h ! arr sl)"
  by (auto simp: elems_def backing_def split: if_splits)

lemma elems_update:
  assumes "i < length (elems h sl)"
  shows "elems (h[arr sl := (backing h (arr sl))[i := v]]) sl = (elems h sl)[i := v]"
  using elems_in_heap [OF assms]
  by (simp add: elems_def backing_def take_update_swap)

lemma elems_nth: "i < length (elems h sl) \<Longrightarrow> backing h (arr sl) ! i = elems h sl ! i"
  by (simp add: elems_def)

section \<open>The cache hit\<close>

lemma cache_hit_Returned:
  assumes "cacheDataLookup s (mPath m) = Some cca" and "i < length (elems (heap s) (VerLic cca))"
  shows "cache_hit m now cca i s =
           Returned (s\<lparr>heap := (heap s)[arr (VerLic cca) :=
                         (backing (heap s) (arr (VerLic cca)))[i := (elems (heap s) (VerLic cca) ! i)\<lparr>LastUsed := now\<rparr>]],
                       trace := trace s @ [Finish m (Some \<lparr>Name = License (elems (heap s) (VerLic cca) ! i),
                                                            lSPDX = SPDX (elems (heap s) (VerLic cca) ! i)\<rparr>) None]\<rparr>)"
proof -
  have upd: "(cacheDataLookup s)(mPath m \<mapsto> cca) = cacheDataLookup s"
    using assms(1) by (simp add: map_upd_triv)
  show ?thesis
    using assms
    by (simp add: cache_hit_def Let_def elems_update elems_nth emit_def upd)
qed

lemma module_task_hit:
  assumes "flagCache env \<noteq> []"
    and "cacheDataLookup s (mPath m) = Some cca"
    and "vs = elems (heap s) (VerLic cca)"
    and "\<forall>vv\<in>set vs. Version vv = mVersion m \<longrightarrow> Hash vv = mHash m"
    and "i < length vs" and "Version (vs ! i) = mVersion m"
    and "\<forall>j. i < j \<and> j < length vs \<longrightarrow> Version (vs ! j) \<noteq> mVersion m"
  shows "module_task env m now s =
           Returned (s\<lparr>heap := (heap s)[arr (VerLic cca) :=
                         (backing (heap s) (arr (VerLic cca)))[i := (vs ! i)\<lparr>LastUsed := now\<rparr>]],
                       trace := trace s @ [Start m, Finish m (Some \<lparr>Name = License (vs ! i), lSPDX = SPDX (vs ! i)\<rparr>) None]\<rparr>)"
proof -
  have sc: "scan m vs 0 (False, 0) = Some (True, i)"
    using scan_last [OF assms(4-7), of 0 "(False, 0)"] by simp
  have hit: "cache_hit m now cca i (emit (Start m) s) =
      Returned ((emit (Start m) s)\<lparr>heap := (heap s)[arr (VerLic cca) :=
                         (backing (heap s) (arr (VerLic cca)))[i := (vs ! i)\<lparr>LastUsed := now\<rparr>]],
                       trace := trace (emit (Start m) s) @ [Finish m (Some \<lparr>Name = License (vs ! i), lSPDX = SPDX (vs ! i)\<rparr>) None]\<rparr>)"
    using cache_hit_Returned [of "emit (Start m) s" m cca i now] assms(2,3,5)
    by (simp add: emit_def)
  show ?thesis
    using assms(1,2) sc hit
    by (simp add: module_task_def Let_def emit_def assms(3) [symmetric])
qed

lemma module_task_Exited_iff:
  assumes "flagCache env \<noteq> []" and "cacheDataLookup s (mPath m) = Some cca"
  shows "is_Exited (module_task env m now s) \<longleftrightarrow>
         scan m (elems (heap s) (VerLic cca)) 0 (False, 0) = None"
  using assms
  by (auto simp: module_task_def Let_def emit_def cache_hit_def split: option.splits if_splits)

lemma module_task_mismatch:
  assumes "flagCache env \<noteq> []" and "cacheDataLookup s (mPath m) = Some cca"
    and "vv \<in> set (elems (heap s) (VerLic cca))" and "Version vv = mVersion m" and "Hash vv \<noteq> mHash m"
  shows "module_task env m now s = Exited (s\<lparr>trace := trace s @ [Start m]\<rparr>)"
proof -
  have "scan m (elems (heap s) (VerLic cca)) 0 (False, 0) = None"
    using assms(3-5) by (auto simp: scan_None_iff)
  then show ?thesis
    using assms(1,2) by (simp add: module_task_def Let_def emit_def)
qed

lemmas ex_defs =
  ex_a_def ex_find_def ex_cached_def ex_plain_def ex_h1_def ex_h2_def
  ex_file_h1_def ex_file_h2_def ex_file_both_def ex_holding_def ex_sched_def
  ex_h1_later_def ex_file_twice_def ex_store_def ex_entry_def

lemmas run_defs =
  boot_def readFile_def NewSemaphore_def Acquire_def Release_def
  step_def main_step_def task_step_def marshal_def

lemmas task_defs =
  module_task_def cache_hit_def cache_miss_def cache_insert_def no_cache_def
  find_or_translate_def emit_def elems_def backing_def

lemma exec_ended: "exit_code p \<noteq> None \<Longrightarrow> exec env sched p = p"
  by (induction sched) (simp_all add: step_def)

text \<open>
  What lines 246-257 do with a mismatch they meet. With \<open>-cache\<close> given, when the
  goroutine of a module \<open>m\<close> runs its body and the entry that \<open>cacheDataLookup\<close> holds
  for the path of \<open>m\<close> has a sub-record with the version of \<open>m\<close> and another hash, the
  process ends with status 1 at once: the only event added is \<open>Start m\<close>, and whatever
  the scheduler picks afterwards changes nothing.
\<close>

lemma mismatch_in_lookup_ends_run:
  assumes "flagCache env \<noteq> []"
    and "exit_code p = None" and "i < length (tasks p)" and "tasks p ! i = (m, Holding)"
    and "cacheDataLookup (st p) (mPath m) = Some cca"
    and "vv \<in> set (elems (heap (st p)) (VerLic cca))"
    and "Version vv = mVersion m" and "Hash vv \<noteq> mHash m"
  shows "exec env (Task i now # sched) p =
           p\<lparr>st := (st p)\<lparr>trace := trace (st p) @ [Start m]\<rparr>, exit_code := Some 1\<rparr>"
proof -
  have "step env (Task i now) p = p\<lparr>st := (st p)\<lparr>trace := trace (st p) @ [Start m]\<rparr>, exit_code := Some 1\<rparr>"
    using assms(2-4) module_task_mismatch [OF assms(1,5-8), of now]
    by (simp add: step_def task_step_def)
  then show ?thesis by (simp add: exec_ended)
qed

lemma mismatch_in_lookup_ends_run_example:
  "flagCache ex_cached \<noteq> [] \<and> tasks (ex_holding ex_file_h2) ! 0 = (ex_a, Holding) \<and>
   Version ex_h2 = mVersion ex_a \<and> Hash ex_h2 \<noteq> mHash ex_a \<and>
   exit_code (exec ex_cached [Task 0 5, Main, Main] (ex_holding ex_file_h2)) = Some 1 \<and>
   disk (exec ex_cached [Task 0 5, Main, Main] (ex_holding ex_file_h2)) = Some ex_file_h2 \<and>
   trace (st (exec ex_cached [Task 0 5, Main, Main] (ex_holding ex_file_h2))) = [Start ex_a]"
  using mismatch_in_lookup_ends_run [of ex_cached "ex_holding ex_file_h2" 0 ex_a
      "\<lparr>Path = ''x/a'', VerLic = \<lparr>arr = 0, len = 1\<rparr>\<rparr>" ex_h2 5 "[Main, Main]"]
  by (simp add: ex_defs run_defs task_defs)


text \<open>
  C10. With \<open>-cache\<close> given and an entry for the module's path in \<open>cacheDataLookup\<close>,
  the goroutine ends the process exactly when some sub-record of that entry has the
  module's version and another hash, whatever the other sub-records hold. When every
  sub-record of the module's version has the module's hash, the last of them in the list
  gives the license that is reported.
\<close>

theorem hash_check_scans_every_sub_record:
  assumes "flagCache env \<noteq> []"
    and "cacheDataLookup s (mPath m) = Some cca"
    and "vs = elems (heap s) (VerLic cca)"
  shows "(is_Exited (module_task env m now s) \<longleftrightarrow>
            (\<exists>vv\<in>set vs. Version vv = mVersion m \<and> Hash vv \<noteq> mHash m)) \<and>
         ((\<forall>vv\<in>set vs. Version vv = mVersion m \<longrightarrow> Hash vv = mHash m) \<and>
          i < length vs \<and> Version (vs ! i) = mVersion m \<and>
          (\<forall>j. i < j \<and> j < length vs \<longrightarrow> Version (vs ! j) \<noteq> mVersion m) \<longrightarrow>
            is_Returned (module_task env m now s) \<and>
            trace (final (module_task env m now s)) =
              trace s @ [Start m, Finish m (Some \<lparr>Name = License (vs ! i), lSPDX = SPDX (vs ! i)\<rparr>) None])"
proof (intro conjI impI)
  show "is_Exited (module_task env m now s) \<longleftrightarrow>
          (\<exists>vv\<in>set vs. Version vv = mVersion m \<and> Hash vv \<noteq> mHash m)"
    using module_task_Exited_iff [OF assms(1,2), of now] by (simp add: scan_None_iff assms(3))
next
  assume h: "(\<forall>vv\<in>set vs. Version vv = mVersion m \<longrightarrow> Hash vv = mHash m) \<and>
          i < length vs \<and> Version (vs ! i) = mVersion m \<and>
          (\<forall>j. i < j \<and> j < length vs \<longrightarrow> Version (vs ! j) \<noteq> mVersion m)"
  then have eq: "module_task env m now s =
           Returned (s\<lparr>heap := (heap s)[arr (VerLic cca) :=
                         (backing (heap s) (arr (VerLic cca)))[i := (vs ! i)\<lparr>LastUsed := now\<rparr>]],
                       trace := trace s @ [Start m, Finish m (Some \<lparr>Name = License (vs ! i), lSPDX = SPDX (vs ! i)\<rparr>) None]\<rparr>)"
    by (intro module_task_hit [OF assms]) simp_all
  show "is_Returned (module_task env m now s)" by (simp add: eq)
  show "trace (final (module_task env m now s)) =
          trace s @ [Start m, Finish m (Some \<lparr>Name = License (vs ! i), lSPDX = SPDX (vs ! i)\<rparr>) None]"
    by (simp add: eq)
qed

lemma ex_store_both:
  "cacheDataLookup (ex_store ex_file_both) (mPath ex_a) = Some (ex_entry 2) \<and>
   elems (heap (ex_store ex_file_both)) (VerLic (ex_entry 2)) = [ex_h1, ex_h2]"
  by (simp add: ex_defs run_defs elems_def backing_def)

lemma ex_store_twice:
  "cacheDataLookup (ex_store ex_file_twice) (mPath ex_a) = Some (ex_entry 2) \<and>
   elems (heap (ex_store ex_file_twice)) (VerLic (ex_entry 2)) = [ex_h1, ex_h1_later]"
  by (simp add: ex_defs run_defs elems_def backing_def)

theorem hash_check_scans_every_sub_record_witness:
  "flagCache ex_cached \<noteq> [] \<and>
   Version ex_h1 = mVersion ex_a \<and> Hash ex_h1 = mHash ex_a \<and>
   Version ex_h2 = mVersion ex_a \<and> Hash ex_h2 \<noteq> mHash ex_a \<and>
   is_Exited (module_task ex_cached ex_a 12 (ex_store ex_file_both)) \<and>
   Version ex_h1_later = mVersion ex_a \<and> Hash ex_h1_later = mHash ex_a \<and>
   is_Returned (module_task ex_cached ex_a 12 (ex_store ex_file_twice)) \<and>
   trace (final (module_task ex_cached ex_a 12 (ex_store ex_file_twice))) =
     [Start ex_a, Finish ex_a (Some \<lparr>Name = ''MIT'', lSPDX = ''MIT''\<rparr>) None]"
proof -
  have c: "flagCache ex_cached \<noteq> []" by (simp add: ex_cached_def)
  have v: "Version ex_h1 = mVersion ex_a \<and> Hash ex_h1 = mHash ex_a \<and>
           Version ex_h2 = mVersion ex_a \<and> Hash ex_h2 \<noteq> mHash ex_a \<and>
           Version ex_h1_later = mVersion ex_a \<and> Hash ex_h1_later = mHash ex_a"
    by (simp add: ex_defs)
  have t: "trace (ex_store ex_file_twice) = []" by (simp add: ex_defs run_defs)
  have l: "License ex_h1_later = ''MIT'' \<and> SPDX ex_h1_later = ''MIT''" by (simp add: ex_defs)
  have both: "is_Exited (module_task ex_cached ex_a 12 (ex_store ex_file_both))"
    using hash_check_scans_every_sub_record [OF c conjunct1 [OF ex_store_both]
        conjunct2 [OF ex_store_both, symmetric], of 12 0] v
    by simp
  have last: "(\<forall>vv\<in>set [ex_h1, ex_h1_later]. Version vv = mVersion ex_a \<longrightarrow> Hash vv = mHash ex_a) \<and>
          1 < length [ex_h1, ex_h1_later] \<and> Version ([ex_h1, ex_h1_later] ! 1) = mVersion ex_a \<and>
          (\<forall>j. 1 < j \<and> j < length [ex_h1, ex_h1_later] \<longrightarrow> Version ([ex_h1, ex_h1_later] ! j) \<noteq> mVersion ex_a)"
    using v by auto
  have twice: "is_Returned (module_task ex_cached ex_a 12 (ex_store ex_file_twice)) \<and>
      trace (final (module_task ex_cached ex_a 12 (ex_store ex_file_twice))) =
        trace (ex_store ex_file_twice) @
        [Start ex_a, Finish ex_a (Some \<lparr>Name = License ([ex_h1, ex_h1_later] ! 1),
                                          lSPDX = SPDX ([ex_h1, ex_h1_later] ! 1)\<rparr>) None]"
    using hash_check_scans_every_sub_record [OF c conjunct1 [OF ex_store_twice]
        conjunct2 [OF ex_store_twice, symmetric], of 12 1] last
    by blast
  show ?thesis
    using both twice c v t l by simp
qed


text \<open>
  C3, as the code has it. With \<open>-cache\<close> given, when the entry that \<open>cacheDataLookup\<close>
  holds for the module's path has a sub-record of the module's version and every
  sub-record of that version has the module's hash, the goroutine returns with exactly
  the events \<open>Start\<close> and \<open>Finish\<close>: it reports the license name and SPDX of the last
  such sub-record with no error and calls neither \<open>license.Find\<close> nor
  \<open>license.Translate\<close>. That sub-record's \<open>LastUsed\<close> becomes the reading of the clock
  and nothing else in the entry changes; the new value is at least the old one when the
  clock is not behind the old one.
\<close>

theorem cache_hit_returns_cached_license:
  assumes "flagCache env \<noteq> []"
    and "cacheDataLookup s (mPath m) = Some cca"
    and "vs = elems (heap s) (VerLic cca)"
    and "\<forall>vv\<in>set vs. Version vv = mVersion m \<longrightarrow> Hash vv = mHash m"
    and "i < length vs" and "Version (vs ! i) = mVersion m"
    and "\<forall>j. i < j \<and> j < length vs \<longrightarrow> Version (vs ! j) \<noteq> mVersion m"
  shows "is_Returned (module_task env m now s) \<and>
         trace (final (module_task env m now s)) =
           trace s @ [Start m, Finish m (Some \<lparr>Name = License (vs ! i), lSPDX = SPDX (vs ! i)\<rparr>) None] \<and>
         elems (heap (final (module_task env m now s))) (VerLic cca) = vs[i := (vs ! i)\<lparr>LastUsed := now\<rparr>] \<and>
         LastUsed (elems (heap (final (module_task env m now s))) (VerLic cca) ! i) = now \<and>
         (LastUsed (vs ! i) \<le> now \<longrightarrow>
            LastUsed (vs ! i) \<le> LastUsed (elems (heap (final (module_task env m now s))) (VerLic cca) ! i)) \<and>
         cacheData (final (module_task env m now s)) = cacheData s \<and>
         cacheDataLookup (final (module_task env m now s)) = cacheDataLookup s \<and>
         count (final (module_task env m now s)) = count s"
proof -
  have i: "i < length (elems (heap s) (VerLic cca))" using assms(3,5) by simp
  show ?thesis
    using i by (simp add: module_task_hit [OF assms] elems_update assms(3) [symmetric])
qed

lemma ex_store_h1:
  "cacheDataLookup (ex_store ex_file_h1) (mPath ex_a) = Some (ex_entry 1) \<and>
   elems (heap (ex_store ex_file_h1)) (VerLic (ex_entry 1)) = [ex_h1]"
  by (simp add: ex_defs run_defs elems_def backing_def)

theorem cache_hit_returns_cached_license_witness:
  "flagCache ex_cached \<noteq> [] \<and> Version ex_h1 = mVersion ex_a \<and> Hash ex_h1 = mHash ex_a \<and>
   is_Returned (module_task ex_cached ex_a 12 (ex_store ex_file_h1)) \<and>
   trace (final (module_task ex_cached ex_a 12 (ex_store ex_file_h1))) =
     [Start ex_a, Finish ex_a (Some \<lparr>Name = ''BSD'', lSPDX = ''BSD''\<rparr>) None] \<and>
   elems (heap (final (module_task ex_cached ex_a 12 (ex_store ex_file_h1)))) (VerLic (ex_entry 1)) =
     [ex_h1\<lparr>LastUsed := 12\<rparr>] \<and>
   LastUsed ex_h1 \<le> 12"
proof -
  have c: "flagCache ex_cached \<noteq> []" by (simp add: ex_cached_def)
  have v: "Version ex_h1 = mVersion ex_a \<and> Hash ex_h1 = mHash ex_a \<and> LastUsed ex_h1 \<le> 12 \<and>
           License ex_h1 = ''BSD'' \<and> SPDX ex_h1 = ''BSD''"
    by (simp add: ex_defs)
  have t: "trace (ex_store ex_file_h1) = []" by (simp add: ex_defs run_defs)
  have h: "\<forall>vv\<in>set [ex_h1]. Version vv = mVersion ex_a \<longrightarrow> Hash vv = mHash ex_a"
    and i: "0 < length [ex_h1]" and e: "Version ([ex_h1] ! 0) = mVersion ex_a"
    and j: "\<forall>j. 0 < j \<and> j < length [ex_h1] \<longrightarrow> Version ([ex_h1] ! j) \<noteq> mVersion ex_a"
    using v by auto
  show ?thesis
    using cache_hit_returns_cached_license [OF c conjunct1 [OF ex_store_h1]
        conjunct2 [OF ex_store_h1, symmetric] h i e j, of 12] c v t
    by simp
qed

text \<open>
  C3 as stated fails twice. A cache file whose sub-record was last used at 9, read when
  the clock shows 3: the run reports the cached license and writes 3, a time before the
  previous value. A cache file that holds the module's version with the module's hash
  and, in a second sub-record, with another hash: the process ends with status 1 and
  reports no license.
\<close>

theorem cache_hit_counterexample:
  "trace (st (exec ex_cached (ex_sched 3) (boot ex_cached (Some ex_file_h1) [ex_a]))) =
     [Start ex_a, Finish ex_a (Some \<lparr>Name = ''BSD'', lSPDX = ''BSD''\<rparr>) None] \<and>
   disk (exec ex_cached (ex_sched 3) (boot ex_cached (Some ex_file_h1) [ex_a])) =
     Some [(''x/a'', [ex_h1\<lparr>LastUsed := 3\<rparr>])] \<and>
   LastUsed ex_h1 = 9 \<and>
   Version ex_h1 = mVersion ex_a \<and> Hash ex_h1 = mHash ex_a \<and>
   exit_code (exec ex_cached (ex_sched 3) (boot ex_cached (Some ex_file_both) [ex_a])) = Some 1 \<and>
   trace (st (exec ex_cached (ex_sched 3) (boot ex_cached (Some ex_file_both) [ex_a]))) = [Start ex_a]"
  by (simp add: ex_defs run_defs task_defs)

text \<open>
  C6. Without \<open>-cache\<close> the goroutine returns, and its events are, in this order:
  \<open>Start\<close>; the call of \<open>license.Find\<close> on the module; when that gave a license and no
  error, \<open>Finish\<close> with that license; otherwise the call of \<open>license.Translate\<close> on the
  module, the call of \<open>license.Find\<close> on the translated module, and \<open>Finish\<close> with
  what that call gave (no license, when it found none). The only other effect is
  \<open>count++\<close>.
\<close>

theorem no_cache_find_then_translate:
  assumes "flagCache env = []"
  shows "module_task env m now s =
           Returned (s\<lparr>count := count s + 1,
                       trace := trace s @
                         (case Find env m of
                            (Some lic, None) \<Rightarrow> [Start m, FindCall m, Finish m (Some lic) None]
                          | _ \<Rightarrow> [Start m, FindCall m, TranslateCall m, FindCall (Translate env m),
                                  Finish m (fst (Find env (Translate env m)))
                                           (snd (Find env (Translate env m)))])\<rparr>)"
  using assms
  by (cases "Find env m")
     (auto simp: module_task_def no_cache_def find_or_translate_def Let_def emit_def
           split: option.splits)

theorem no_cache_find_then_translate_witness:
  "flagCache ex_plain = [] \<and>
   module_task ex_plain (ex_a\<lparr>mPath := ''y/b''\<rparr>) 0 (st (boot ex_plain None [])) =
     Returned ((st (boot ex_plain None []))
       \<lparr>count := 1,
        trace := [Start (ex_a\<lparr>mPath := ''y/b''\<rparr>), FindCall (ex_a\<lparr>mPath := ''y/b''\<rparr>),
                  TranslateCall (ex_a\<lparr>mPath := ''y/b''\<rparr>), FindCall ex_a,
                  Finish (ex_a\<lparr>mPath := ''y/b''\<rparr>) (Some \<lparr>Name = ''MIT'', lSPDX = ''MIT''\<rparr>) None]\<rparr>)"
  using no_cache_find_then_translate [of ex_plain "ex_a\<lparr>mPath := ''y/b''\<rparr>" 0 "st (boot ex_plain None [])"]
  by (simp add: ex_defs boot_def)


section \<open>The semaphore\<close>

lemma filter_update_length:
  "i < length xs \<Longrightarrow>
   length (filter P (xs[i := y])) + (if P (xs ! i) then 1 else 0) =
   length (filter P xs) + (if P y then 1 else 0)"
proof (induction xs arbitrary: i)
  case Nil
  then show ?case by simp
next
  case (Cons x xs)
  show ?case
  proof (cases i)
    case 0
    then show ?thesis by simp
  next
    case (Suc j)
    with Cons.prems have "j < length xs" by simp
    from Cons.IH [OF this] Suc show ?thesis by simp
  qed
qed

lemma slots_main: "holders (main_step env p) = holders p \<and> sem (main_step env p) = sem p"
  by (simp add: main_step_def holders_def split: phase.splits list.splits)

lemma slots_task:
  assumes "i < length (tasks p)" and "sem p + holders p = 5"
  shows "sem (task_step env i now p) + holders (task_step env i now p) = 5"
proof (cases "tasks p ! i")
  case (Pair m c)
  show ?thesis
  proof (cases c)
    case Spawned
    show ?thesis
      using assms Pair Spawned
        filter_update_length [OF assms(1), of "\<lambda>t. snd t = Holding \<or> snd t = Returning" "(m, Holding)"]
      by (auto simp: task_step_def holders_def Acquire_def)
  next
    case Holding
    show ?thesis
      using assms Pair Holding
        filter_update_length [OF assms(1), of "\<lambda>t. snd t = Holding \<or> snd t = Returning" "(m, Returning)"]
      by (auto simp: task_step_def holders_def split: outcome.splits)
  next
    case Returning
    show ?thesis
      using assms Pair Returning
        filter_update_length [OF assms(1), of "\<lambda>t. snd t = Holding \<or> snd t = Returning" "(m, Done)"]
      by (auto simp: task_step_def holders_def Release_def)
  next
    case Done
    then show ?thesis using assms Pair by (simp add: task_step_def)
  qed
qed

lemma slots_step: "sem p + holders p = 5 \<Longrightarrow> sem (step env a p) + holders (step env a p) = 5"
  by (cases a) (simp_all add: step_def slots_main slots_task)

lemma slots_exec: "sem p + holders p = 5 \<Longrightarrow> sem (exec env sched p) + holders (exec env sched p) = 5"
  by (induction sched arbitrary: p) (simp_all add: slots_step)

lemma slots_boot: "sem (boot env js mods) + holders (boot env js mods) = 5"
  by (simp add: boot_def holders_def NewSemaphore_def Let_def)

lemma work_needs_slot:
  assumes "st (step env (Task i now) p) \<noteq> st p"
  shows "i < length (tasks p) \<and> snd (tasks p ! i) = Holding"
proof -
  from assms have i: "i < length (tasks p)" and e: "exit_code p = None"
    by (auto simp: step_def split: if_splits)
  obtain m c where t: "tasks p ! i = (m, c)" by (cases "tasks p ! i")
  from assms i e t have "c = Holding"
    by (cases c) (auto simp: step_def task_step_def split: option.splits)
  with i t show ?thesis by simp
qed

lemma done_after_release:
  assumes "snd (tasks (step env a p) ! i) = Done" and "snd (tasks p ! i) \<noteq> Done" and "i < length (tasks p)"
  shows "snd (tasks p ! i) = Returning \<and> sem (step env a p) = sem p + 1"
proof (cases a)
  case Main
  with assms show ?thesis
    by (auto simp: step_def main_step_def nth_append split: if_splits phase.splits list.splits)
next
  case (Task k now)
  from assms Task have k: "k < length (tasks p)" and e: "exit_code p = None"
    by (auto simp: step_def split: if_splits)
  obtain m c where t: "tasks p ! k = (m, c)" by (cases "tasks p ! k")
  show ?thesis
    using assms Task k e t
    by (cases c; cases "k = i")
       (auto simp: step_def task_step_def Acquire_def Release_def split: outcome.splits if_splits)
qed

text \<open>
  C7. In every state a run reaches, whatever the schedule and the number of modules, at
  most 5 lookup goroutines are between \<open>sem.Acquire()\<close> and \<open>sem.Release()\<close>, and
  the free slots and the held slots add up to 5. A step of a lookup goroutine changes
  the shared variables (cache, finder and translator calls, reports) only when that
  goroutine holds a slot, and a goroutine becomes done only by the step that gives its
  slot back.
\<close>

theorem at_most_five_hold_a_slot:
  "holders (exec env sched (boot env js mods)) \<le> 5 \<and>
   sem (exec env sched (boot env js mods)) + holders (exec env sched (boot env js mods)) = 5 \<and>
   (st (step env (Task i now) p) \<noteq> st p \<longrightarrow> i < length (tasks p) \<and> snd (tasks p ! i) = Holding) \<and>
   (i < length (tasks p) \<and> snd (tasks p ! i) \<noteq> Done \<and> snd (tasks (step env a p) ! i) = Done \<longrightarrow>
      snd (tasks p ! i) = Returning \<and> sem (step env a p) = sem p + 1)"
  using slots_exec [of "boot env js mods" env sched] slots_boot [of env js mods]
    work_needs_slot [of env i now p] done_after_release [of env a p i]
  by auto

lemma ex_holding_step:
  "trace (st (step ex_cached (Task 0 5) (ex_holding ex_file_h1))) \<noteq> trace (st (ex_holding ex_file_h1))"
  by (simp add: ex_defs run_defs task_defs)

theorem at_most_five_hold_a_slot_witness:
  "st (step ex_cached (Task 0 5) (ex_holding ex_file_h1)) \<noteq> st (ex_holding ex_file_h1) \<and>
   snd (tasks (ex_holding ex_file_h1) ! 0) = Holding \<and>
   snd (tasks (step ex_cached (Task 0 5) (ex_holding ex_file_h1)) ! 0) = Returning \<and>
   snd (tasks (step ex_cached (Task 0 5) (step ex_cached (Task 0 5) (ex_holding ex_file_h1))) ! 0) = Done \<and>
   sem (step ex_cached (Task 0 5) (step ex_cached (Task 0 5) (ex_holding ex_file_h1))) =
     sem (step ex_cached (Task 0 5) (ex_holding ex_file_h1)) + 1 \<and>
   holders (exec ex_cached [Main, Task 0 0] (boot ex_cached (Some ex_file_h1) [ex_a])) \<le> 5"
proof -
  have n: "st (step ex_cached (Task 0 5) (ex_holding ex_file_h1)) \<noteq> st (ex_holding ex_file_h1)"
    using ex_holding_step by metis
  have r: "snd (tasks (step ex_cached (Task 0 5) (ex_holding ex_file_h1)) ! 0) = Returning \<and>
      0 < length (tasks (step ex_cached (Task 0 5) (ex_holding ex_file_h1)))"
    by (simp add: ex_defs run_defs task_defs)
  have d: "snd (tasks (step ex_cached (Task 0 5) (step ex_cached (Task 0 5) (ex_holding ex_file_h1))) ! 0) = Done"
    by (simp add: ex_defs run_defs task_defs)
  show ?thesis
    using at_most_five_hold_a_slot [of ex_cached "[Main, Task 0 0]" "Some ex_file_h1" "[ex_a]" 0 5
        "ex_holding ex_file_h1" "Task 0 5"]
      at_most_five_hold_a_slot [of ex_cached "[Main, Task 0 0]" "Some ex_file_h1" "[ex_a]" 0 5
        "step ex_cached (Task 0 5) (ex_holding ex_file_h1)" "Task 0 5"]
      n r d
    by simp
qed


section \<open>What a goroutine body does to the shared variables\<close>

lemma find_or_translate_effect:
  "count (snd (find_or_translate env m s)) = count s \<and>
   cacheData (snd (find_or_translate env m s)) = cacheData s \<and>
   cacheDataLookup (snd (find_or_translate env m s)) = cacheDataLookup s \<and>
   heap (snd (find_or_translate env m s)) = heap s \<and>
   finished (trace (snd (find_or_translate env m s))) = finished (trace s)"
  by (simp add: find_or_translate_def Let_def emit_def finished_def)

lemma cache_insert_effect:
  "count (cache_insert m lic now s) = count s \<and> trace (cache_insert m lic now s) = trace s"
  by (simp add: cache_insert_def Let_def split: option.splits)

lemma cache_miss_effect:
  "count s \<le> count (cache_miss env m now s) \<and>
   finished (trace (cache_miss env m now s)) = finished (trace s) @ [m]"
proof -
  obtain r s2 where f: "find_or_translate env m (s\<lparr>count := count s + 1\<rparr>) = (r, s2)"
    by (cases "find_or_translate env m (s\<lparr>count := count s + 1\<rparr>)")
  from find_or_translate_effect [of env m "s\<lparr>count := count s + 1\<rparr>"] f
  have "count s2 = count s + 1" and "finished (trace s2) = finished (trace s)" by simp_all
  then show ?thesis
    using f cache_insert_effect
    by (cases r) (auto simp: cache_miss_def Let_def emit_def finished_def split: option.splits)
qed

lemma no_cache_effect:
  "count s \<le> count (no_cache env m s) \<and>
   finished (trace (no_cache env m s)) = finished (trace s) @ [m]"
proof -
  obtain r s2 where f: "find_or_translate env m (s\<lparr>count := count s + 1\<rparr>) = (r, s2)"
    by (cases "find_or_translate env m (s\<lparr>count := count s + 1\<rparr>)")
  from find_or_translate_effect [of env m "s\<lparr>count := count s + 1\<rparr>"] f
  have "count s2 = count s + 1" and "finished (trace s2) = finished (trace s)" by simp_all
  then show ?thesis
    using f by (simp add: no_cache_def Let_def emit_def finished_def)
qed

lemma cache_hit_effect:
  "count (final (cache_hit m now cca i s)) = count s \<and>
   finished (trace (final (cache_hit m now cca i s))) =
     finished (trace s) @ (if is_Returned (cache_hit m now cca i s) then [m] else [])"
  by (simp add: cache_hit_def Let_def emit_def finished_def split: option.splits)

lemma module_task_effect:
  "count s \<le> count (final (module_task env m now s)) \<and>
   finished (trace (final (module_task env m now s))) =
     finished (trace s) @ (if is_Returned (module_task env m now s) then [m] else [])"
proof -
  have e: "count (emit (Start m) s) = count s \<and> finished (trace (emit (Start m) s)) = finished (trace s)"
    by (simp add: emit_def finished_def)
  show ?thesis
    using e cache_miss_effect [of "emit (Start m) s" env m now] no_cache_effect [of "emit (Start m) s" env m]
      cache_hit_effect [of m now _ _ "emit (Start m) s"]
    by (auto simp: module_task_def Let_def split: option.splits)
qed


section \<open>The loop that starts the goroutines\<close>

lemma map_fst_update: "i < length xs \<Longrightarrow> fst (xs ! i) = m \<Longrightarrow> map fst (xs[i := (m, c)]) = map fst xs"
  by (simp add: map_update list_update_same_conv)

lemma task_step_names:
  assumes "i < length (tasks p)"
  shows "map fst (tasks (task_step env i now p)) = map fst (tasks p) \<and>
         mainpc (task_step env i now p) = mainpc p \<and>
         count (st p) \<le> count (st (task_step env i now p))"
proof -
  obtain m c where t: "tasks p ! i = (m, c)" by (cases "tasks p ! i")
  have f: "fst (tasks p ! i) = m" using t by simp
  show ?thesis
    using t module_task_effect [of "st p" env m now] map_fst_update [OF assms f]
    by (cases c; cases "module_task env m now (st p)")
       (auto simp: task_step_def split: option.splits)
qed

lemma spawn_inv_main: "spawn_inv mods p \<Longrightarrow> spawn_inv mods (main_step env p)"
  by (auto simp: spawn_inv_def main_step_def split: phase.splits list.splits)

lemma spawn_inv_task:
  assumes "spawn_inv mods p" and "i < length (tasks p)"
  shows "spawn_inv mods (task_step env i now p)"
proof -
  from task_step_names [OF assms(2), of env now]
  have n: "map fst (tasks (task_step env i now p)) = map fst (tasks p)"
    and m: "mainpc (task_step env i now p) = mainpc p"
    and c: "count (st p) \<le> count (st (task_step env i now p))" by simp_all
  from n have l: "length (tasks (task_step env i now p)) = length (tasks p)"
    by (metis length_map)
  show ?thesis
    using assms(1) c by (cases "mainpc p") (simp_all add: spawn_inv_def n m l)
qed

lemma spawn_inv_step: "spawn_inv mods p \<Longrightarrow> spawn_inv mods (step env a p)"
  by (cases a) (simp_all add: step_def spawn_inv_main spawn_inv_task)

lemma spawn_inv_exec: "spawn_inv mods p \<Longrightarrow> spawn_inv mods (exec env sched p)"
  by (induction sched arbitrary: p) (simp_all add: spawn_inv_step)

lemma spawn_inv_boot: "spawn_inv mods (boot env js mods)"
  by (simp add: spawn_inv_def boot_def Let_def)

lemma started_prefix:
  "map fst (tasks (exec env sched (boot env js mods))) =
     take (length (tasks (exec env sched (boot env js mods)))) mods \<and>
   length (tasks (exec env sched (boot env js mods))) \<le> 6"
proof -
  have "spawn_inv mods (exec env sched (boot env js mods))"
    by (rule spawn_inv_exec [OF spawn_inv_boot])
  then show ?thesis
    by (cases "mainpc (exec env sched (boot env js mods))")
       (auto simp: spawn_inv_def dest: arg_cong [where f = "take (length (tasks (exec env sched (boot env js mods))))"])
qed

section \<open>Reports and goroutines\<close>

lemma mset_filter_update:
  assumes "i < length xs" and "\<not> P (xs ! i)" and "P y"
  shows "mset (filter P (xs[i := y])) = add_mset y (mset (filter P xs))"
  using assms
proof (induction xs arbitrary: i)
  case Nil
  then show ?case by simp
next
  case (Cons x xs)
  then show ?case by (cases i) auto
qed

lemma mset_filter_update_same:
  assumes "i < length xs" and "P (xs ! i) \<longleftrightarrow> P y" and "fst y = fst (xs ! i)"
  shows "mset (map fst (filter P (xs[i := y]))) = mset (map fst (filter P xs))"
  using assms
proof (induction xs arbitrary: i)
  case Nil
  then show ?case by simp
next
  case (Cons x xs)
  then show ?case by (cases i) auto
qed

lemma returned_main: "returned (main_step env p) = returned p \<and> st (main_step env p) = st p \<or>
    (\<exists>m ms. mainpc p = Loop (m # ms)) \<and> returned (main_step env p) = returned p \<and>
      trace (st (main_step env p)) = trace (st p)"
  by (auto simp: main_step_def returned_def split: phase.splits list.splits)

lemma reports_main:
  "mset (finished (trace (st (main_step env p)))) = mset (finished (trace (st p))) \<and>
   mset (returned (main_step env p)) = mset (returned p)"
  using returned_main [of env p] by auto

lemma reports_task:
  assumes "i < length (tasks p)" and "mset (finished (trace (st p))) = mset (returned p)"
  shows "mset (finished (trace (st (task_step env i now p)))) = mset (returned (task_step env i now p))"
proof -
  let ?P = "\<lambda>t. snd t = Returning \<or> snd t = Done"
  obtain m c where t: "tasks p ! i = (m, c)" by (cases "tasks p ! i")
  show ?thesis
  proof (cases c)
    case Spawned
    have "mset (map fst (filter ?P ((tasks p)[i := (m, Holding)]))) = mset (map fst (filter ?P (tasks p)))"
      using t Spawned by (intro mset_filter_update_same [OF assms(1)]) simp_all
    then show ?thesis
      using assms t Spawned by (simp add: task_step_def returned_def split: option.splits)
  next
    case Holding
    have "mset (filter ?P ((tasks p)[i := (m, Returning)])) = add_mset (m, Returning) (mset (filter ?P (tasks p)))"
      using t Holding by (intro mset_filter_update [OF assms(1)]) simp_all
    from arg_cong [OF this, of "image_mset fst"]
    have r: "mset (map fst (filter ?P ((tasks p)[i := (m, Returning)]))) =
        add_mset m (mset (map fst (filter ?P (tasks p))))"
      by simp
    show ?thesis
      using assms t Holding r module_task_effect [of "st p" env m now]
      by (cases "module_task env m now (st p)") (auto simp: task_step_def returned_def)
  next
    case Returning
    have "mset (map fst (filter ?P ((tasks p)[i := (m, Done)]))) = mset (map fst (filter ?P (tasks p)))"
      using t Returning by (intro mset_filter_update_same [OF assms(1)]) simp_all
    then show ?thesis
      using assms t Returning by (simp add: task_step_def returned_def)
  next
    case Done
    then show ?thesis using assms t by (simp add: task_step_def)
  qed
qed

lemma reports_step:
  "mset (finished (trace (st p))) = mset (returned p) \<Longrightarrow>
   mset (finished (trace (st (step env a p)))) = mset (returned (step env a p))"
  by (cases a) (simp_all add: step_def reports_main reports_task)

lemma reports_exec:
  "mset (finished (trace (st p))) = mset (returned p) \<Longrightarrow>
   mset (finished (trace (st (exec env sched p)))) = mset (returned (exec env sched p))"
  by (induction sched arbitrary: p) (simp_all add: reports_step)

lemma reports_boot: "mset (finished (trace (st (boot env js mods)))) = mset (returned (boot env js mods))"
  by (simp add: boot_def readFile_def finished_def returned_def Let_def split: option.splits prod.splits)

lemma reports_are_goroutines:
  "mset (finished (trace (st (exec env sched (boot env js mods))))) =
   mset (returned (exec env sched (boot env js mods)))"
  by (rule reports_exec [OF reports_boot])

lemma Finish_finished: "Finish m lic err \<in> set tr \<Longrightarrow> m \<in> set (finished tr)"
  by (induction tr) (auto simp: finished_def)

lemma returned_subset: "set (returned p) \<subseteq> set (map fst (tasks p))"
  by (auto simp: returned_def)


text \<open>
  C1 on seven modules, whatever the schedule, the cache file and the finders: the loop
  of line 225 is left at line 307 once \<open>count > 5\<close>, so at most six goroutines are
  started; the seventh module of \<open>mods\<close> gets none and \<open>out.Finish\<close> never reports it.
\<close>

theorem seventh_module_gets_no_goroutine:
  "length (tasks (exec env sched (boot env js ex_seven))) \<le> 6 \<and>
   ex_seven ! 6 \<notin> set (map fst (tasks (exec env sched (boot env js ex_seven)))) \<and>
   Finish (ex_seven ! 6) lic err \<notin> set (trace (st (exec env sched (boot env js ex_seven))))"
proof -
  let ?p = "exec env sched (boot env js ex_seven)"
  from started_prefix [of env sched js ex_seven]
  have pre: "map fst (tasks ?p) = take (length (tasks ?p)) ex_seven" and le: "length (tasks ?p) \<le> 6"
    by simp_all
  have "set (take (length (tasks ?p)) ex_seven) \<subseteq> set (take 6 ex_seven)"
    using le by (rule set_take_subset_set_take)
  moreover have "ex_seven ! 6 \<notin> set (take 6 ex_seven)"
    by (simp add: ex_seven_def)
  ultimately have no: "ex_seven ! 6 \<notin> set (map fst (tasks ?p))"
    using pre by auto
  have "set (finished (trace (st ?p))) = set (returned ?p)"
    using reports_are_goroutines [of env sched js ex_seven] by (metis set_mset_mset)
  with no returned_subset [of ?p] have "ex_seven ! 6 \<notin> set (finished (trace (st ?p)))"
    by auto
  with Finish_finished have "Finish (ex_seven ! 6) lic err \<notin> set (trace (st ?p))"
    by blast
  with le no show ?thesis by simp
qed

text \<open>
  C2 on a cache file that has an entry for the path \<open>x/a\<close> (version \<open>v1\<close>) and the
  module \<open>x/a\<close> of version \<open>v2\<close>: the run finds the license with no error and ends
  regularly, and the cache file it writes is the file it read, without a sub-record for
  \<open>v2\<close>. (Line 284 appends to the local copy \<open>c2\<close> only.)
\<close>

theorem insert_lost_when_path_has_entry:
  "trace (st (exec ex_cached (ex_sched 7) (boot ex_cached (Some ex_file_h1) [ex_b]))) =
     [Start ex_b, FindCall ex_b, Finish ex_b (Some \<lparr>Name = ''MIT'', lSPDX = ''MIT''\<rparr>) None] \<and>
   mainpc (exec ex_cached (ex_sched 7) (boot ex_cached (Some ex_file_h1) [ex_b])) = Closed \<and>
   disk (exec ex_cached (ex_sched 7) (boot ex_cached (Some ex_file_h1) [ex_b])) = Some ex_file_h1"
  by (simp add: ex_defs ex_b_def run_defs task_defs)

lemma ex_first_run_eval:
  "mainpc ex_first_run = Closed \<and> exit_code ex_first_run = None \<and>
   trace (st ex_first_run) =
     [Start ex_a, FindCall ex_a, Finish ex_a (Some \<lparr>Name = ''MIT'', lSPDX = ''MIT''\<rparr>) None,
      Start ex_b, FindCall ex_b, Finish ex_b (Some \<lparr>Name = ''MIT'', lSPDX = ''MIT''\<rparr>) None] \<and>
   disk ex_first_run =
     Some [(''x/a'', [\<lparr>Version = ''v1'', License = ''MIT'', SPDX = ''MIT'', Hash = ''h1'', Created = 7, LastUsed = 7\<rparr>]),
           (''x/a'', [\<lparr>Version = ''v2'', License = ''MIT'', SPDX = ''MIT'', Hash = ''h2'', Created = 7, LastUsed = 7\<rparr>])]"
  by (simp add: ex_first_run_def ex_sched2_def ex_defs ex_b_def run_defs task_defs)


text \<open>
  C5 on two modules of one path, versions \<open>v1\<close> and \<open>v2\<close>, and an empty cache file.
  The first run resolves both and writes a sub-record for each, in two entries of the
  same path (line 290 adds the entry to \<open>cacheData\<close> and not to \<open>cacheDataLookup\<close>).
  The second run reads that file, keeps the later entry for the path (line 84), and
  calls \<open>license.Find\<close> for \<open>v1\<close> again, although the file holds its sub-record with
  the same hash. The licenses reported are the same in both runs.
\<close>

theorem second_run_looks_up_cached_module_again:
  "mainpc ex_first_run = Closed \<and> exit_code ex_first_run = None \<and>
   trace (st ex_first_run) =
     [Start ex_a, FindCall ex_a, Finish ex_a (Some \<lparr>Name = ''MIT'', lSPDX = ''MIT''\<rparr>) None,
      Start ex_b, FindCall ex_b, Finish ex_b (Some \<lparr>Name = ''MIT'', lSPDX = ''MIT''\<rparr>) None] \<and>
   disk ex_first_run =
     Some [(''x/a'', [\<lparr>Version = ''v1'', License = ''MIT'', SPDX = ''MIT'', Hash = ''h1'', Created = 7, LastUsed = 7\<rparr>]),
           (''x/a'', [\<lparr>Version = ''v2'', License = ''MIT'', SPDX = ''MIT'', Hash = ''h2'', Created = 7, LastUsed = 7\<rparr>])] \<and>
   mainpc ex_second_run = Closed \<and> exit_code ex_second_run = None \<and>
   trace (st ex_second_run) =
     [Start ex_a, FindCall ex_a, Finish ex_a (Some \<lparr>Name = ''MIT'', lSPDX = ''MIT''\<rparr>) None,
      Start ex_b, Finish ex_b (Some \<lparr>Name = ''MIT'', lSPDX = ''MIT''\<rparr>) None] \<and>
   disk ex_second_run =
     Some [(''x/a'', [\<lparr>Version = ''v1'', License = ''MIT'', SPDX = ''MIT'', Hash = ''h1'', Created = 7, LastUsed = 7\<rparr>]),
           (''x/a'', [\<lparr>Version = ''v2'', License = ''MIT'', SPDX = ''MIT'', Hash = ''h2'', Created = 7, LastUsed = 8\<rparr>])]"
proof -
  have second: "mainpc ex_second_run = Closed \<and> exit_code ex_second_run = None \<and>
   trace (st ex_second_run) =
     [Start ex_a, FindCall ex_a, Finish ex_a (Some \<lparr>Name = ''MIT'', lSPDX = ''MIT''\<rparr>) None,
      Start ex_b, Finish ex_b (Some \<lparr>Name = ''MIT'', lSPDX = ''MIT''\<rparr>) None] \<and>
   disk ex_second_run =
     Some [(''x/a'', [\<lparr>Version = ''v1'', License = ''MIT'', SPDX = ''MIT'', Hash = ''h1'', Created = 7, LastUsed = 7\<rparr>]),
           (''x/a'', [\<lparr>Version = ''v2'', License = ''MIT'', SPDX = ''MIT'', Hash = ''h2'', Created = 7, LastUsed = 8\<rparr>])]"
    by (simp add: ex_second_run_def ex_first_run_eval ex_sched2_def ex_defs ex_b_def run_defs task_defs)
  with ex_first_run_eval show ?thesis by simp
qed

text \<open>
  C4 on two inputs. First, the cache file that \<open>ex_first_run\<close> wrote, with two
  entries for the path \<open>x/a\<close>, and a module of that path and of version \<open>v1\<close> with
  the hash \<open>h9\<close>: the first entry holds \<open>v1\<close> with the hash \<open>h1\<close>, but \<open>readFile\<close>
  keeps the later entry only (line 84), the loop of lines 248-256 never meets the
  mismatch, and the run calls \<open>license.Find\<close>, reports a license, ends regularly and
  writes the cache file. Second, seven modules and a cache file that holds the seventh
  with another hash: the loop of line 225 is left before the seventh module gets a
  goroutine (line 307), the check never runs for it, and the run ends regularly and
  writes the cache file.
\<close>

theorem mismatch_not_met_run_goes_on:
  "disk ex_first_run =
     Some [(''x/a'', [\<lparr>Version = ''v1'', License = ''MIT'', SPDX = ''MIT'', Hash = ''h1'', Created = 7, LastUsed = 7\<rparr>]),
           (''x/a'', [\<lparr>Version = ''v2'', License = ''MIT'', SPDX = ''MIT'', Hash = ''h2'', Created = 7, LastUsed = 7\<rparr>])] \<and>
   mPath ex_a_h9 = ''x/a'' \<and> mVersion ex_a_h9 = ''v1'' \<and> mHash ex_a_h9 \<noteq> ''h1'' \<and>
   exit_code ex_shadowed_run = None \<and> mainpc ex_shadowed_run = Closed \<and>
   trace (st ex_shadowed_run) =
     [Start ex_a_h9, FindCall ex_a_h9, Finish ex_a_h9 (Some \<lparr>Name = ''MIT'', lSPDX = ''MIT''\<rparr>) None] \<and>
   disk ex_shadowed_run = disk ex_first_run \<and>
   mPath (ex_seven ! 6) = ''x/a'' \<and> mVersion (ex_seven ! 6) = ''v7'' \<and> mHash (ex_seven ! 6) \<noteq> ''h2'' \<and>
   exit_code ex_seven_run = None \<and> mainpc ex_seven_run = Closed \<and>
   map fst (tasks ex_seven_run) = take 6 ex_seven \<and>
   disk ex_seven_run = Some ex_file_v7"
proof -
  have m: "mPath ex_a_h9 = ''x/a'' \<and> mVersion ex_a_h9 = ''v1'' \<and> mHash ex_a_h9 \<noteq> ''h1'' \<and>
      mPath (ex_seven ! 6) = ''x/a'' \<and> mVersion (ex_seven ! 6) = ''v7'' \<and> mHash (ex_seven ! 6) \<noteq> ''h2''"
    by (simp add: ex_a_h9_def ex_seven_def)
  have shadowed: "exit_code ex_shadowed_run = None \<and> mainpc ex_shadowed_run = Closed \<and>
      trace (st ex_shadowed_run) =
        [Start ex_a_h9, FindCall ex_a_h9, Finish ex_a_h9 (Some \<lparr>Name = ''MIT'', lSPDX = ''MIT''\<rparr>) None] \<and>
      disk ex_shadowed_run =
        Some [(''x/a'', [\<lparr>Version = ''v1'', License = ''MIT'', SPDX = ''MIT'', Hash = ''h1'', Created = 7, LastUsed = 7\<rparr>]),
              (''x/a'', [\<lparr>Version = ''v2'', License = ''MIT'', SPDX = ''MIT'', Hash = ''h2'', Created = 7, LastUsed = 7\<rparr>])]"
    by (simp add: ex_shadowed_run_def ex_first_run_eval ex_a_h9_def ex_defs run_defs task_defs)
  have seven: "exit_code ex_seven_run = None \<and> mainpc ex_seven_run = Closed \<and>
      map fst (tasks ex_seven_run) = take 6 ex_seven \<and>
      disk ex_seven_run = Some ex_file_v7"
    by (simp add: ex_seven_run_def ex_sched7_def ex_seven_def ex_file_v7_def ex_defs run_defs task_defs)
  show ?thesis
    using m shadowed seven ex_first_run_eval by simp
qed

section \<open>The set of modules\<close>

lemma dom_insert_all: "dom (fold (\<lambda>m acc. acc(m \<mapsto> ())) ms acc) = dom acc \<union> set ms"
  by (induction ms arbitrary: acc) auto

lemma dom_fold_exes:
  "dom (fold (\<lambda>mods acc. fold (\<lambda>m acc. acc(m \<mapsto> ())) mods acc) exes acc) = dom acc \<union> (\<Union>ms\<in>set exes. set ms)"
  by (induction exes arbitrary: acc) (auto simp: dom_insert_all)

lemma dom_allMods: "dom (allMods exes) = (\<Union>ms\<in>set exes. set ms)"
  by (simp add: allMods_def dom_fold_exes)

lemma count_take_le: "count_list (take n xs) x \<le> count_list xs x"
proof -
  have "count_list (take n xs @ drop n xs) x = count_list (take n xs) x + count_list (drop n xs) x"
    by (rule count_list_append)
  then show ?thesis by simp
qed

lemma count_distinct: "distinct xs \<Longrightarrow> count_list xs x = (if x \<in> set xs then 1 else 0)"
  by (induction xs) auto

lemma count_filter_le: "count_list (map fst (filter P xs)) x \<le> count_list (map fst xs) x"
  by (induction xs) auto

lemma one_report_per_module:
  assumes "distinct mods"
  shows "count_list (finished (trace (st (exec env sched (boot env js mods))))) m \<le> 1"
proof -
  let ?p = "exec env sched (boot env js mods)"
  have "count_list (finished (trace (st ?p))) m = count_list (returned ?p) m"
    using reports_are_goroutines [of env sched js mods] by (metis count_mset)
  also have "\<dots> \<le> count_list (map fst (tasks ?p)) m"
    by (simp add: returned_def count_filter_le)
  also have "\<dots> \<le> count_list mods m"
    using started_prefix [of env sched js mods] by (metis count_take_le)
  also have "\<dots> \<le> 1"
    using assms by (simp add: count_distinct)
  finally show ?thesis .
qed

text \<open>
  C8, as the code has it. The key of \<open>allMods\<close> is the whole struct, so the modules are
  deduplicated by path, version and hash: whatever order the \<open>range\<close> over the map
  takes, \<open>mods\<close> holds every extracted module exactly once, however often the
  executables name it, and no run reports a module (a triple of path, version and hash)
  more than once.
\<close>

theorem modules_deduplicated_by_whole_struct:
  assumes "range_order (allMods exes) mods"
  shows "set mods = (\<Union>ms\<in>set exes. set ms) \<and> distinct mods \<and>
         (m \<in> (\<Union>ms\<in>set exes. set ms) \<longrightarrow> count_list mods m = 1) \<and>
         count_list (finished (trace (st (exec env sched (boot env js mods))))) m \<le> 1"
proof -
  from assms have d: "distinct mods" and s: "set mods = (\<Union>ms\<in>set exes. set ms)"
    by (simp_all add: range_order_def dom_allMods)
  have "m \<in> set mods \<Longrightarrow> count_list mods m = 1"
    using d by (simp add: count_distinct)
  with d s one_report_per_module [OF d, of env sched js m] show ?thesis by simp
qed

theorem modules_deduplicated_by_whole_struct_witness:
  "range_order (allMods [[ex_a, ex_b], [ex_b, ex_a]]) [ex_b, ex_a] \<and>
   set [ex_b, ex_a] = (\<Union>ms\<in>set [[ex_a, ex_b], [ex_b, ex_a]]. set ms) \<and>
   count_list [ex_b, ex_a] ex_a = 1 \<and>
   count_list (finished (trace (st (exec ex_plain (ex_sched2 7) (boot ex_plain None [ex_b, ex_a]))))) ex_a \<le> 1"
proof -
  have r: "range_order (allMods [[ex_a, ex_b], [ex_b, ex_a]]) [ex_b, ex_a]"
    by (auto simp: range_order_def dom_allMods ex_a_def ex_b_def)
  have "ex_a \<in> (\<Union>ms\<in>set [[ex_a, ex_b], [ex_b, ex_a]]. set ms)" by simp
  with modules_deduplicated_by_whole_struct [OF r, of ex_a ex_plain "ex_sched2 7" None] r
  show ?thesis by blast
qed

text \<open>
  C8 as stated fails: two extracted modules of one path and one version with different
  hashes are two keys of \<open>allMods\<close>, both are looked up, and the run reports two
  outcomes for the one pair of path and version.
\<close>

theorem modules_of_one_version_counterexample:
  "mPath ex_a = mPath ex_a_h2 \<and> mVersion ex_a = mVersion ex_a_h2 \<and>
   range_order (allMods [[ex_a, ex_a_h2]]) [ex_a, ex_a_h2] \<and>
   trace (st (exec ex_plain (ex_sched2 7) (boot ex_plain None [ex_a, ex_a_h2]))) =
     [Start ex_a, FindCall ex_a, Finish ex_a (Some \<lparr>Name = ''MIT'', lSPDX = ''MIT''\<rparr>) None,
      Start ex_a_h2, FindCall ex_a_h2, Finish ex_a_h2 (Some \<lparr>Name = ''MIT'', lSPDX = ''MIT''\<rparr>) None]"
proof -
  have r: "range_order (allMods [[ex_a, ex_a_h2]]) [ex_a, ex_a_h2]"
    by (auto simp: range_order_def dom_allMods ex_a_def ex_a_h2_def)
  have t: "trace (st (exec ex_plain (ex_sched2 7) (boot ex_plain None [ex_a, ex_a_h2]))) =
     [Start ex_a, FindCall ex_a, Finish ex_a (Some \<lparr>Name = ''MIT'', lSPDX = ''MIT''\<rparr>) None,
      Start ex_a_h2, FindCall ex_a_h2, Finish ex_a_h2 (Some \<lparr>Name = ''MIT'', lSPDX = ''MIT''\<rparr>) None]"
    by (simp add: ex_sched2_def ex_defs ex_a_h2_def run_defs task_defs)
  show ?thesis using r t by (simp add: ex_a_def ex_a_h2_def)
qed


section \<open>What the cache records\<close>

lemma find_or_translate_calls:
  "\<exists>evs. trace (snd (find_or_translate env m s)) = trace s @ FindCall m # evs \<and> finished evs = []"
  by (simp add: find_or_translate_def Let_def emit_def finished_def)

lemma cache_miss_cases:
  obtains (recorded) lic evs where
      "cacheDataLookup s (mPath m) = None"
      "cache_miss env m now s =
         s\<lparr>count := count s + 1,
           heap := heap s @ [[\<lparr>Version = mVersion m, License = Name lic, SPDX = lSPDX lic,
                               Hash = mHash m, Created = now, LastUsed = now\<rparr>]],
           cacheData := cacheData s @ [\<lparr>Path = mPath m, VerLic = \<lparr>arr = length (heap s), len = 1\<rparr>\<rparr>],
           trace := trace s @ FindCall m # evs @ [Finish m (Some lic) None]\<rparr>"
      "finished evs = []"
  | (dropped) lic evs c2 where
      "cacheDataLookup s (mPath m) = Some c2"
      "cache_miss env m now s =
         s\<lparr>count := count s + 1,
           heap := heap s @ [elems (heap s) (VerLic c2) @
                             [\<lparr>Version = mVersion m, License = Name lic, SPDX = lSPDX lic,
                               Hash = mHash m, Created = now, LastUsed = now\<rparr>]],
           trace := trace s @ FindCall m # evs @ [Finish m (Some lic) None]\<rparr>"
      "finished evs = []"
  | (failed) lic err evs where
      "lic = None \<or> err \<noteq> None"
      "cache_miss env m now s =
         s\<lparr>count := count s + 1, trace := trace s @ FindCall m # evs @ [Finish m lic err]\<rparr>"
      "finished evs = []"
proof -
  obtain r s2 where f: "find_or_translate env m (s\<lparr>count := count s + 1\<rparr>) = (r, s2)"
    by (cases "find_or_translate env m (s\<lparr>count := count s + 1\<rparr>)")
  from find_or_translate_calls [of env m "s\<lparr>count := count s + 1\<rparr>"] f
  obtain evs where tr: "trace s2 = trace s @ FindCall m # evs" and fe: "finished evs = []" by auto
  from find_or_translate_effect [of env m "s\<lparr>count := count s + 1\<rparr>"] f
  have same: "count s2 = count s + 1" "cacheData s2 = cacheData s"
    "cacheDataLookup s2 = cacheDataLookup s" "heap s2 = heap s" by simp_all
  have s2: "s2 = s\<lparr>count := count s + 1, trace := trace s @ FindCall m # evs\<rparr>"
    using tr same by simp
  obtain lic err where r: "r = (lic, err)" by (cases r)
  show thesis
  proof (cases "lic = None \<or> err \<noteq> None")
    case True
    then have "cache_miss env m now s =
        s\<lparr>count := count s + 1, trace := trace s @ FindCall m # evs @ [Finish m lic err]\<rparr>"
      using f r s2 by (auto simp: cache_miss_def Let_def emit_def split: option.splits)
    with True show thesis using fe by (intro failed)
  next
    case False
    then obtain l where l: "lic = Some l" "err = None" by auto
    show thesis
    proof (cases "cacheDataLookup s (mPath m)")
      case None
      then have "cache_miss env m now s =
         s\<lparr>count := count s + 1,
           heap := heap s @ [[\<lparr>Version = mVersion m, License = Name l, SPDX = lSPDX l,
                               Hash = mHash m, Created = now, LastUsed = now\<rparr>]],
           cacheData := cacheData s @ [\<lparr>Path = mPath m, VerLic = \<lparr>arr = length (heap s), len = 1\<rparr>\<rparr>],
           trace := trace s @ FindCall m # evs @ [Finish m (Some l) None]\<rparr>"
        using f r l s2 by (simp add: cache_miss_def cache_insert_def Let_def emit_def)
      with None show thesis using fe by (intro recorded)
    next
      case (Some c2)
      then have "cache_miss env m now s =
         s\<lparr>count := count s + 1,
           heap := heap s @ [elems (heap s) (VerLic c2) @
                             [\<lparr>Version = mVersion m, License = Name l, SPDX = lSPDX l,
                               Hash = mHash m, Created = now, LastUsed = now\<rparr>]],
           trace := trace s @ FindCall m # evs @ [Finish m (Some l) None]\<rparr>"
        using f r l s2 by (simp add: cache_miss_def cache_insert_def Let_def emit_def)
      with Some show thesis using fe by (intro dropped)
    qed
  qed
qed


lemma module_task_cached_cases:
  assumes "flagCache env \<noteq> []"
  obtains (exit) "module_task env m now s = Exited (emit (Start m) s)"
  | (hit) cca i where "module_task env m now s = cache_hit m now cca i (emit (Start m) s)"
  | (miss) "module_task env m now s = Returned (cache_miss env m now (emit (Start m) s))"
      "\<And>now' tr c. module_task env m now' (s\<lparr>count := c, trace := tr\<rparr>) =
          Returned (cache_miss env m now' (emit (Start m) (s\<lparr>count := c, trace := tr\<rparr>)))"
proof (cases "cacheDataLookup s (mPath m)")
  case None
  with assms show thesis
    by (intro miss) (simp_all add: module_task_def Let_def emit_def)
next
  case (Some cca)
  show thesis
  proof (cases "scan m (elems (heap s) (VerLic cca)) 0 (False, 0)")
    case None
    with assms Some show thesis
      by (intro exit) (simp add: module_task_def Let_def emit_def)
  next
    case (Some r)
    obtain f i where r: "r = (f, i)" by (cases r)
    show thesis
    proof (cases f)
      case True
      with assms \<open>cacheDataLookup s (mPath m) = Some cca\<close> Some r show thesis
        by (intro hit [of cca i]) (simp add: module_task_def Let_def emit_def)
    next
      case False
      with assms \<open>cacheDataLookup s (mPath m) = Some cca\<close> Some r show thesis
        by (intro miss) (simp_all add: module_task_def Let_def emit_def)
    qed
  qed
qed

lemma cache_hit_last:
  "is_Returned (cache_hit m now cca i s) \<Longrightarrow>
   \<exists>lic. last (trace (final (cache_hit m now cca i s))) = Finish m (Some lic) None \<and>
         cacheData (final (cache_hit m now cca i s)) = cacheData s"
  by (auto simp: cache_hit_def Let_def emit_def split: option.splits if_splits)

lemma cache_hit_cacheData: "cacheData (final (cache_hit m now cca i s)) = cacheData s"
  by (auto simp: cache_hit_def Let_def emit_def split: option.splits if_splits)

lemma unmarshal_result:
  "unmarshal js h = (cms, h') \<Longrightarrow>
   h' = h @ map snd js \<and>
   (\<forall>cc\<in>set cms. arr (VerLic cc) < length h') \<and>
   map (\<lambda>cc. (Path cc, elems h' (VerLic cc))) cms = js"
proof (induction js arbitrary: h cms h')
  case Nil
  then show ?case by simp
next
  case (Cons e js)
  obtain p vls where e: "e = (p, vls)" by (cases e)
  obtain cms0 h0 where u: "unmarshal js (h @ [vls]) = (cms0, h0)"
    by (cases "unmarshal js (h @ [vls])")
  have ih: "h0 = (h @ [vls]) @ map snd js"
    "\<forall>cc\<in>set cms0. arr (VerLic cc) < length h0"
    "map (\<lambda>cc. (Path cc, elems h0 (VerLic cc))) cms0 = js"
    using Cons.IH [OF u] by blast+
  from Cons.prems e u have r: "cms = \<lparr>Path = p, VerLic = \<lparr>arr = length h, len = length vls\<rparr>\<rparr> # cms0" "h' = h0"
    by simp_all
  have "elems h0 \<lparr>arr = length h, len = length vls\<rparr> = vls"
    by (simp add: ih(1) elems_def backing_def nth_append)
  with ih r e show ?case by simp
qed

lemma from_file_self: "(p, vls) \<in> set js \<Longrightarrow> vv \<in> set vls \<Longrightarrow> from_file js p vv"
  by (force simp: from_file_def list_ex_iff)

lemma records_ok_self: "records_ok js tr js"
  by (auto simp: records_ok_def list_all_iff intro: from_file_self)

lemma readFile_ok:
  "wf_store (readFile file \<lparr>count = 0, cacheData = [], cacheDataLookup = Map.empty, heap = [], trace = []\<rparr>) \<and>
   marshal (readFile file \<lparr>count = 0, cacheData = [], cacheDataLookup = Map.empty, heap = [], trace = []\<rparr>) =
     (case file of None \<Rightarrow> [] | Some js \<Rightarrow> js)"
proof (cases "file")
  case None
  then show ?thesis by (simp add: readFile_def wf_store_def marshal_def)
next
  case (Some js)
  obtain cms h where u: "unmarshal js [] = (cms, h)" by (cases "unmarshal js []")
  have r: "h = map snd js" "\<forall>cc\<in>set cms. arr (VerLic cc) < length h"
    "map (\<lambda>cc. (Path cc, elems h (VerLic cc))) cms = js"
    using unmarshal_result [OF u] by auto
  show ?thesis
    using Some u r(2,3) by (simp add: readFile_def wf_store_def marshal_def list_all_iff)
qed


section \<open>Sub-records keep their origin\<close>

lemma from_file_used: "from_file js p (vv\<lparr>LastUsed := t\<rparr>) = from_file js p vv"
  by (simp add: from_file_def)

lemma from_report_used: "from_report tr p (vv\<lparr>LastUsed := t\<rparr>) = from_report tr p vv"
proof -
  have "reports p (vv\<lparr>LastUsed := t\<rparr>) e = reports p vv e" for e
    by (cases "(p, vv, e)" rule: reports.cases) simp_all
  then show ?thesis by (simp add: from_report_def list_ex_iff)
qed

lemma from_report_mono: "from_report tr p vv \<Longrightarrow> from_report (tr @ evs) p vv"
  by (auto simp: from_report_def list_ex_iff)

lemma records_ok_mono: "records_ok js tr out \<Longrightarrow> records_ok js (tr @ evs) out"
  by (auto simp: records_ok_def list_all_iff dest: from_report_mono)

lemma elems_touched:
  assumes "vv' \<in> set (elems (h[a := (backing h a)[i := (backing h a ! i)\<lparr>LastUsed := t\<rparr>]]) sl)"
  shows "\<exists>vv\<in>set (elems h sl). vv' = vv \<or> vv' = vv\<lparr>LastUsed := t\<rparr>"
proof (cases "arr sl = a \<and> a < length h")
  case True
  let ?xs = "h ! a"
  from True assms have "vv' \<in> set (take (len sl) (?xs[i := (?xs ! i)\<lparr>LastUsed := t\<rparr>]))"
    by (simp add: elems_def backing_def)
  then obtain k where k: "k < len sl" "k < length ?xs" "vv' = (?xs[i := (?xs ! i)\<lparr>LastUsed := t\<rparr>]) ! k"
    by (auto simp: in_set_conv_nth)
  have in_elems: "?xs ! k \<in> set (elems h sl)"
    using True k(1,2) by (auto simp: elems_def backing_def in_set_conv_nth intro!: exI [of _ k])
  show ?thesis
  proof (cases "k = i")
    case True
    with k in_elems show ?thesis by auto
  next
    case False
    with k in_elems show ?thesis by auto
  qed
next
  case False
  with assms have "vv' \<in> set (elems h sl)"
    by (auto simp: elems_def backing_def split: if_splits)
  then show ?thesis by blast
qed

lemma marshal_touched:
  assumes "records_ok js tr (map (\<lambda>cc. (Path cc, elems h (VerLic cc))) cms)"
  shows "records_ok js tr (map (\<lambda>cc. (Path cc,
           elems (h[a := (backing h a)[i := (backing h a ! i)\<lparr>LastUsed := t\<rparr>]]) (VerLic cc))) cms)"
  unfolding records_ok_def list_all_iff
proof (intro ballI)
  fix e vv'
  assume e: "e \<in> set (map (\<lambda>cc. (Path cc,
           elems (h[a := (backing h a)[i := (backing h a ! i)\<lparr>LastUsed := t\<rparr>]]) (VerLic cc))) cms)"
    and v: "vv' \<in> set (snd e)"
  from e obtain cc where cc: "cc \<in> set cms" "fst e = Path cc"
    "snd e = elems (h[a := (backing h a)[i := (backing h a ! i)\<lparr>LastUsed := t\<rparr>]]) (VerLic cc)"
    by auto
  from elems_touched v cc(3) obtain vv where vv: "vv \<in> set (elems h (VerLic cc))"
    "vv' = vv \<or> vv' = vv\<lparr>LastUsed := t\<rparr>" by metis
  from assms cc(1) vv(1) have "from_file js (Path cc) vv \<or> from_report tr (Path cc) vv"
    by (auto simp: records_ok_def list_all_iff)
  with vv(2) cc(2) show "from_file js (fst e) vv' \<or> from_report tr (fst e) vv'"
    by (auto simp: from_file_used from_report_used)
qed

lemma elems_alloc: "arr sl < length h \<Longrightarrow> elems (h @ [xs]) sl = elems h sl"
  by (simp add: elems_def backing_def nth_append)

lemma marshal_alloc:
  "wf_store s \<Longrightarrow> map (\<lambda>cc. (Path cc, elems (heap s @ [xs]) (VerLic cc))) (cacheData s) = marshal s"
  by (simp add: wf_store_def marshal_def list_all_iff elems_alloc)


lemma cache_inv_emit: "cache_inv js s \<Longrightarrow> cache_inv js (emit e s)"
  using records_ok_mono [of js "trace s" "marshal s" "[e]"]
  by (simp add: cache_inv_def emit_def wf_store_def marshal_def)

lemma cache_inv_later:
  assumes "cache_inv js s" and "heap s' = heap s" and "cacheData s' = cacheData s"
    and "trace s' = trace s @ evs"
  shows "cache_inv js s'"
  using assms records_ok_mono [of js "trace s" "marshal s" evs]
  by (simp add: cache_inv_def wf_store_def marshal_def)

lemma cache_inv_touched:
  assumes "cache_inv js s"
    and "heap s' = (heap s)[a := (backing (heap s) a)[i := (backing (heap s) a ! i)\<lparr>LastUsed := t\<rparr>]]"
    and "cacheData s' = cacheData s" and "trace s' = trace s @ evs"
  shows "cache_inv js s'"
proof -
  have "records_ok js (trace s) (marshal s')"
    using assms(1) marshal_touched [of js "trace s" "heap s" "cacheData s" a i t]
    by (simp add: cache_inv_def marshal_def assms(2,3))
  from records_ok_mono [OF this, of evs] assms show ?thesis
    by (simp add: cache_inv_def wf_store_def)
qed

lemma cache_hit_shape:
  "cacheData (final (cache_hit m now cca i s)) = cacheData s \<and>
   (\<exists>evs. trace (final (cache_hit m now cca i s)) = trace s @ evs) \<and>
   (heap (final (cache_hit m now cca i s)) = heap s \<or>
    (\<exists>a. heap (final (cache_hit m now cca i s)) =
          (heap s)[a := (backing (heap s) a)[i := (backing (heap s) a ! i)\<lparr>LastUsed := now\<rparr>]]))"
  by (auto simp: cache_hit_def Let_def emit_def split: option.splits)

lemma cache_inv_hit:
  assumes "cache_inv js s"
  shows "cache_inv js (final (cache_hit m now cca i s))"
  using cache_hit_shape [of m now cca i s] cache_inv_later [OF assms] cache_inv_touched [OF assms]
  by metis

lemma cache_inv_miss:
  assumes "cache_inv js s"
  shows "cache_inv js (cache_miss env m now s)"
proof (cases rule: cache_miss_cases [of s m env now])
  case (recorded lic evs)
  let ?new = "\<lparr>Version = mVersion m, License = Name lic, SPDX = lSPDX lic,
                Hash = mHash m, Created = now, LastUsed = now\<rparr>"
  let ?tr = "trace s @ FindCall m # evs @ [Finish m (Some lic) None]"
  from assms have wf: "wf_store s" and ok: "records_ok js (trace s) (marshal s)"
    by (simp_all add: cache_inv_def)
  have old: "records_ok js ?tr (marshal s)"
    using records_ok_mono [OF ok, of "FindCall m # evs @ [Finish m (Some lic) None]"] by simp
  have new: "from_report ?tr (mPath m) ?new"
    by (simp add: from_report_def)
  have m: "marshal (cache_miss env m now s) = marshal s @ [(mPath m, [?new])]"
    using marshal_alloc [OF wf, of "[?new]"]
    by (simp add: recorded(2) marshal_def elems_def backing_def)
  have w: "wf_store (cache_miss env m now s)"
    using wf by (auto simp: recorded(2) wf_store_def list_all_iff)
  show ?thesis
    using old new w by (simp add: cache_inv_def m) (simp add: recorded(2) records_ok_def)
next
  case (dropped lic evs c2)
  from assms have wf: "wf_store s" and ok: "records_ok js (trace s) (marshal s)"
    by (simp_all add: cache_inv_def)
  have m: "marshal (cache_miss env m now s) = marshal s"
    using marshal_alloc [OF wf] by (simp add: dropped(2) marshal_def)
  have w: "wf_store (cache_miss env m now s)"
    using wf by (auto simp: dropped(2) wf_store_def list_all_iff)
  show ?thesis
    using records_ok_mono [OF ok, of "FindCall m # evs @ [Finish m (Some lic) None]"] w
    by (simp add: cache_inv_def m) (simp add: dropped(2))
next
  case (failed lic err evs)
  from assms have wf: "wf_store s" and ok: "records_ok js (trace s) (marshal s)"
    by (simp_all add: cache_inv_def)
  show ?thesis
    using records_ok_mono [OF ok, of "FindCall m # evs @ [Finish m lic err]"] wf
    by (simp add: cache_inv_def failed(2) wf_store_def marshal_def)
qed

lemma cache_inv_no_cache:
  assumes "cache_inv js s"
  shows "cache_inv js (no_cache env m s)"
proof -
  obtain r s2 where f: "find_or_translate env m (s\<lparr>count := count s + 1\<rparr>) = (r, s2)"
    by (cases "find_or_translate env m (s\<lparr>count := count s + 1\<rparr>)")
  from find_or_translate_calls [of env m "s\<lparr>count := count s + 1\<rparr>"] f
  obtain evs where tr: "trace s2 = trace s @ FindCall m # evs" by auto
  from find_or_translate_effect [of env m "s\<lparr>count := count s + 1\<rparr>"] f
  have same: "cacheData s2 = cacheData s" "heap s2 = heap s" by simp_all
  from assms have wf: "wf_store s" and ok: "records_ok js (trace s) (marshal s)"
    by (simp_all add: cache_inv_def)
  show ?thesis
    using records_ok_mono [OF ok, of "FindCall m # evs @ [Finish m (fst r) (snd r)]"] wf f tr same
    by (simp add: cache_inv_def no_cache_def emit_def wf_store_def marshal_def)
qed

lemma cache_inv_task:
  assumes "cache_inv js s"
  shows "cache_inv js (final (module_task env m now s))"
proof (cases "flagCache env = []")
  case True
  then show ?thesis
    using cache_inv_no_cache [OF cache_inv_emit [OF assms]]
    by (simp add: module_task_def)
next
  case False
  then show ?thesis
  proof (cases rule: module_task_cached_cases [of env m now s])
    case exit
    then show ?thesis using cache_inv_emit [OF assms] by simp
  next
    case (hit cca i)
    then show ?thesis using cache_inv_hit [OF cache_inv_emit [OF assms]] by simp
  next
    case miss
    then show ?thesis using cache_inv_miss [OF cache_inv_emit [OF assms]] by simp
  qed
qed


section \<open>The cache file a run writes\<close>

lemma cache_inv_count: "cache_inv js (s\<lparr>count := c\<rparr>) = cache_inv js s"
  by (simp add: cache_inv_def wf_store_def marshal_def)

lemma cache_inv_main: "cache_inv js (st p) \<Longrightarrow> cache_inv js (st (main_step env p))"
  by (auto simp: main_step_def cache_inv_count split: phase.splits list.splits)

lemma cache_inv_task_step:
  assumes "cache_inv js (st p)"
  shows "cache_inv js (st (task_step env i now p))"
proof -
  obtain m c where t: "tasks p ! i = (m, c)" by (cases "tasks p ! i")
  show ?thesis
    using assms t cache_inv_task [OF assms, of env m now]
    by (cases c; cases "module_task env m now (st p)")
       (auto simp: task_step_def split: option.splits)
qed

lemma cache_inv_step: "cache_inv js (st p) \<Longrightarrow> cache_inv js (st (step env a p))"
  by (cases a) (simp_all add: step_def cache_inv_main cache_inv_task_step)

lemma cache_inv_exec: "cache_inv js (st p) \<Longrightarrow> cache_inv js (st (exec env sched p))"
  by (induction sched arbitrary: p) (simp_all add: cache_inv_step)

lemma cache_inv_boot:
  "cache_inv (case file of None \<Rightarrow> [] | Some js \<Rightarrow> js) (st (boot env file mods))"
proof (cases "flagCache env = []")
  case True
  then show ?thesis
    by (simp add: boot_def cache_inv_def wf_store_def marshal_def records_ok_def)
next
  case False
  then show ?thesis
    using readFile_ok [of "file"] records_ok_self
    by (simp add: boot_def cache_inv_def)
qed

lemma closed_inv_main: "closed_inv env p \<Longrightarrow> closed_inv env (main_step env p)"
  by (auto simp: closed_inv_def main_step_def split: phase.splits list.splits)

lemma closed_inv_task:
  assumes "closed_inv env p" and "i < length (tasks p)"
  shows "closed_inv env (task_step env i now p)"
proof (cases "mainpc p = Closed")
  case True
  with assms have "snd (tasks p ! i) = Done"
    by (simp add: closed_inv_def list_all_iff)
  then have "task_step env i now p = p"
    by (cases "tasks p ! i") (simp add: task_step_def)
  with assms(1) show ?thesis by simp
next
  case False
  have "mainpc (task_step env i now p) = mainpc p"
    by (rule task_step_names [OF assms(2), THEN conjunct2, THEN conjunct1])
  with False show ?thesis by (simp add: closed_inv_def)
qed

lemma closed_inv_step: "closed_inv env p \<Longrightarrow> closed_inv env (step env a p)"
  by (cases a) (simp_all add: step_def closed_inv_main closed_inv_task)

lemma closed_inv_exec: "closed_inv env p \<Longrightarrow> closed_inv env (exec env sched p)"
  by (induction sched arbitrary: p) (simp_all add: closed_inv_step)

lemma closed_inv_boot: "closed_inv env (boot env file mods)"
  by (simp add: closed_inv_def boot_def Let_def)

lemma written_file_origin:
  "records_ok (case file of None \<Rightarrow> [] | Some js \<Rightarrow> js)
     (trace (st (exec env sched (boot env file mods))))
     (marshal (st (exec env sched (boot env file mods)))) \<and>
   (flagCache env \<noteq> [] \<and> mainpc (exec env sched (boot env file mods)) = Closed \<longrightarrow>
      disk (exec env sched (boot env file mods)) = Some (marshal (st (exec env sched (boot env file mods)))))"
  using cache_inv_exec [of "case file of None \<Rightarrow> [] | Some js \<Rightarrow> js" "boot env file mods" env sched]
    cache_inv_boot [of "file" env mods]
    closed_inv_exec [of env "boot env file mods" sched] closed_inv_boot [of env "file" mods]
  by (simp add: cache_inv_def closed_inv_def)

lemma task_records_only_successes:
  assumes "flagCache env \<noteq> []"
  shows "(cacheData (final (module_task env m now s)) \<noteq> cacheData s \<longrightarrow>
            (\<exists>lic. last (trace (final (module_task env m now s))) = Finish m (Some lic) None \<and>
               cacheData (final (module_task env m now s)) =
                 cacheData s @ [\<lparr>Path = mPath m, VerLic = \<lparr>arr = length (heap s), len = 1\<rparr>\<rparr>] \<and>
               elems (heap (final (module_task env m now s))) \<lparr>arr = length (heap s), len = 1\<rparr> =
                 [\<lparr>Version = mVersion m, License = Name lic, SPDX = lSPDX lic,
                   Hash = mHash m, Created = now, LastUsed = now\<rparr>])) \<and>
         (is_Returned (module_task env m now s) \<and>
          last (trace (final (module_task env m now s))) = Finish m lic err \<and>
          (lic = None \<or> err \<noteq> None) \<longrightarrow>
            cacheData (final (module_task env m now s)) = cacheData s \<and>
            cacheDataLookup (final (module_task env m now s)) = cacheDataLookup s \<and>
            heap (final (module_task env m now s)) = heap s \<and>
            marshal (final (module_task env m now s)) = marshal s \<and>
            FindCall m \<in> set (drop (length (trace s)) (trace (final (module_task env m now s)))) \<and>
            is_Returned (module_task env m now' (final (module_task env m now s))) \<and>
            FindCall m \<in> set (drop (length (trace (final (module_task env m now s))))
                                 (trace (final (module_task env m now' (final (module_task env m now s)))))))"
  using assms
proof (cases rule: module_task_cached_cases [of env m now s])
  case exit
  then show ?thesis by (simp add: emit_def)
next
  case (hit cca i)
  show ?thesis
    using cache_hit_last [of m now cca i "emit (Start m) s"]
      cache_hit_cacheData [of m now cca i "emit (Start m) s"]
    by (auto simp: hit emit_def)
next
  case miss
  let ?s = "emit (Start m) s"
  show ?thesis
  proof (cases rule: cache_miss_cases [of ?s m env now])
    case (recorded l evs)
    then show ?thesis
      by (auto simp: miss(1) emit_def elems_def backing_def)
  next
    case (dropped l evs c2)
    then show ?thesis
      by (auto simp: miss(1) emit_def)
  next
    case (failed l e evs)
    let ?s' = "s\<lparr>count := count s + 1, trace := trace s @ Start m # FindCall m # evs @ [Finish m l e]\<rparr>"
    have fin: "final (module_task env m now s) = ?s'"
      and ret: "is_Returned (module_task env m now s)"
      using failed(2) by (simp_all add: miss(1) emit_def)
    have again: "module_task env m now' ?s' = Returned (cache_miss env m now' (emit (Start m) ?s'))"
      by (rule miss(2))
    have "\<exists>evs'. trace (cache_miss env m now' (emit (Start m) ?s')) = trace ?s' @ Start m # FindCall m # evs'"
      by (cases rule: cache_miss_cases [of "emit (Start m) ?s'" m env now']) (simp_all add: emit_def)
    then obtain evs' where
      tr: "trace (cache_miss env m now' (emit (Start m) ?s')) = trace ?s' @ Start m # FindCall m # evs'"
      by blast
    have a: "is_Returned (module_task env m now' ?s')"
      by (simp only: again outcome.disc)
    have t: "trace (final (module_task env m now' ?s')) = trace ?s' @ Start m # FindCall m # evs'"
      by (simp only: again outcome.sel tr)
    have d: "FindCall m \<in> set (drop (length (trace ?s')) (trace (final (module_task env m now' ?s'))))"
      by (simp only: t drop_append) simp
    have same: "cacheData ?s' = cacheData s \<and> cacheDataLookup ?s' = cacheDataLookup s \<and>
        heap ?s' = heap s \<and> marshal ?s' = marshal s \<and>
        FindCall m \<in> set (drop (length (trace s)) (trace ?s'))"
      by (simp add: marshal_def)
    have "\<not> cacheData (final (module_task env m now s)) \<noteq> cacheData s"
      by (simp only: fin) simp
    then show ?thesis
      using same a d by (simp only: fin) blast
  qed
qed


section \<open>The lookup table and the file\<close>

lemma find_snoc: "find P (xs @ [x]) = (case find P xs of None \<Rightarrow> (if P x then Some x else None) | Some y \<Rightarrow> Some y)"
  by (induction xs) auto

lemma fold_lookup:
  "fold (\<lambda>cc lk. lk(Path cc \<mapsto> cc)) cms lk q =
     (case find (\<lambda>cc. Path cc = q) (rev cms) of None \<Rightarrow> lk q | Some cc \<Rightarrow> Some cc)"
proof (induction cms arbitrary: lk)
  case Nil
  then show ?case by simp
next
  case (Cons c cms)
  have "fold (\<lambda>cc lk. lk(Path cc \<mapsto> cc)) (c # cms) lk q =
        fold (\<lambda>cc lk. lk(Path cc \<mapsto> cc)) cms (lk(Path c \<mapsto> c)) q"
    by simp
  also have "\<dots> = (case find (\<lambda>cc. Path cc = q) (rev cms) of
                      None \<Rightarrow> (lk(Path c \<mapsto> c)) q | Some cc \<Rightarrow> Some cc)"
    by (rule Cons.IH)
  also have "\<dots> = (case find (\<lambda>cc. Path cc = q) (rev (c # cms)) of
                      None \<Rightarrow> lk q | Some cc \<Rightarrow> Some cc)"
    by (simp add: find_snoc split: option.splits)
  finally show ?case .
qed

lemma readFile_fresh:
  "fresh (readFile file s)"
  by (simp add: fresh_def readFile_def fold_lookup Let_def split: option.splits prod.splits)

lemma find_mapped: "find P (map g xs) = map_option g (find (\<lambda>x. P (g x)) xs)"
  by (induction xs) auto

lemma find_map_rev:
  "find P (rev (map g xs)) = map_option g (find (\<lambda>x. P (g x)) (rev xs))"
  by (simp add: rev_map find_mapped)

lemma file_versions_marshal:
  "file_versions (marshal s) q =
     (case find (\<lambda>cc. Path cc = q) (rev (cacheData s)) of
        None \<Rightarrow> []
      | Some cc \<Rightarrow> map Version (elems (heap s) (VerLic cc)))"
  by (simp add: file_versions_def marshal_def find_map_rev split: option.splits)

lemma lookup_versions_fresh:
  "fresh s \<Longrightarrow> lookup_versions s q = file_versions (marshal s) q"
  by (simp add: lookup_versions_def fresh_def file_versions_marshal)

lemma boot_versions:
  assumes "flagCache env \<noteq> []"
  shows "fresh (st (boot env file mods)) \<and>
         lookup_versions (st (boot env file mods)) q =
           file_versions (case file of None \<Rightarrow> [] | Some js \<Rightarrow> js) q"
proof -
  let ?s = "readFile file \<lparr>count = 0, cacheData = [], cacheDataLookup = Map.empty, heap = [], trace = []\<rparr>"
  have s: "st (boot env file mods) = ?s" using assms by (simp add: boot_def)
  have f: "fresh ?s" by (rule readFile_fresh)
  from lookup_versions_fresh [OF f, of q] readFile_ok [of "file"]
  have "lookup_versions ?s q = file_versions (case file of None \<Rightarrow> [] | Some js \<Rightarrow> js) q"
    by simp
  with f s show ?thesis by simp
qed


section \<open>Versions under the lookup table\<close>

lemma scan_keeps_found: "scan m vs k (True, j) = Some (f, i) \<Longrightarrow> f"
  by (induction vs arbitrary: k j) (auto split: if_splits)

lemma scan_not_found:
  "scan m vs k (False, j) = Some (False, i) \<Longrightarrow> \<forall>vv\<in>set vs. Version vv \<noteq> mVersion m"
proof (induction vs arbitrary: k)
  case Nil
  then show ?case by simp
next
  case (Cons vv vs)
  show ?case
  proof (cases "Version vv = mVersion m")
    case True
    with Cons.prems have "scan m vs (Suc k) (True, k) = Some (False, i)"
      by (simp split: if_splits)
    from scan_keeps_found [OF this] show ?thesis by simp
  next
    case False
    with Cons show ?thesis by simp
  qed
qed

lemma module_task_lookup_cases:
  assumes "flagCache env \<noteq> []"
  obtains (exit) "module_task env m now s = Exited (emit (Start m) s)"
  | (hit) cca i where "module_task env m now s = cache_hit m now cca i (emit (Start m) s)"
  | (miss) "module_task env m now s = Returned (cache_miss env m now (emit (Start m) s))"
      "mVersion m \<notin> set (lookup_versions s (mPath m))"
proof (cases "cacheDataLookup s (mPath m)")
  case None
  with assms show thesis
    by (intro miss) (simp_all add: module_task_def Let_def emit_def lookup_versions_def)
next
  case (Some cca)
  show thesis
  proof (cases "scan m (elems (heap s) (VerLic cca)) 0 (False, 0)")
    case None
    with assms Some show thesis
      by (intro exit) (simp add: module_task_def Let_def emit_def)
  next
    case (Some r)
    obtain f i where r: "r = (f, i)" by (cases r)
    show thesis
    proof (cases f)
      case True
      with assms \<open>cacheDataLookup s (mPath m) = Some cca\<close> Some r show thesis
        by (intro hit [of cca i]) (simp add: module_task_def Let_def emit_def)
    next
      case False
      with Some r have "\<forall>vv\<in>set (elems (heap s) (VerLic cca)). Version vv \<noteq> mVersion m"
        by (intro scan_not_found [of m _ 0 0 i]) simp
      with False assms \<open>cacheDataLookup s (mPath m) = Some cca\<close> Some r show thesis
        by (intro miss) (auto simp: module_task_def Let_def emit_def lookup_versions_def)
    qed
  qed
qed

lemma module_task_unknown_version:
  assumes "flagCache env \<noteq> []" and "mVersion m \<notin> set (lookup_versions s (mPath m))"
  shows "module_task env m now s = Returned (cache_miss env m now (emit (Start m) s))"
proof (cases "cacheDataLookup s (mPath m)")
  case None
  with assms show ?thesis by (simp add: module_task_def Let_def emit_def)
next
  case (Some cca)
  with assms(2) have "\<forall>vv\<in>set (elems (heap s) (VerLic cca)). Version vv \<noteq> mVersion m"
    by (force simp: lookup_versions_def)
  from scan_no_version [OF this, of 0 "(False, 0)"] assms(1) Some show ?thesis
    by (simp add: module_task_def Let_def emit_def)
qed

lemma versions_touched:
  "map Version (elems (h[a := (backing h a)[i := (backing h a ! i)\<lparr>LastUsed := t\<rparr>]]) sl) =
   map Version (elems h sl)"
proof (cases "arr sl = a \<and> a < length h")
  case True
  then have "elems (h[a := (backing h a)[i := (backing h a ! i)\<lparr>LastUsed := t\<rparr>]]) sl =
      (elems h sl)[i := (h ! a ! i)\<lparr>LastUsed := t\<rparr>]"
    by (simp add: elems_def backing_def take_update_swap)
  moreover have "map Version ((elems h sl)[i := (h ! a ! i)\<lparr>LastUsed := t\<rparr>]) = map Version (elems h sl)"
  proof (cases "i < length (elems h sl)")
    case True
    with \<open>arr sl = a \<and> a < length h\<close> have "elems h sl ! i = h ! a ! i"
      by (simp add: elems_def backing_def)
    then have "(map Version (elems h sl))[i := Version ((h ! a ! i)\<lparr>LastUsed := t\<rparr>)] = map Version (elems h sl)"
      using True by (simp add: list_update_same_conv)
    then show ?thesis by (simp add: map_update)
  next
    case False
    then have "(elems h sl)[i := (h ! a ! i)\<lparr>LastUsed := t\<rparr>] = elems h sl"
      by (intro list_update_beyond) simp
    then show ?thesis by simp
  qed
  ultimately show ?thesis by simp
next
  case False
  then show ?thesis by (auto simp: elems_def backing_def)
qed

lemma resolved_mono: "resolved tr q v \<Longrightarrow> resolved (tr @ evs) q v"
  by (auto simp: resolved_def list_ex_iff)

lemma grown_boot:
  "grown (readFile file \<lparr>count = 0, cacheData = [], cacheDataLookup = Map.empty, heap = [], trace = []\<rparr>)
         (readFile file \<lparr>count = 0, cacheData = [], cacheDataLookup = Map.empty, heap = [], trace = []\<rparr>)"
proof -
  let ?s = "readFile file \<lparr>count = 0, cacheData = [], cacheDataLookup = Map.empty, heap = [], trace = []\<rparr>"
  have w: "\<forall>cc\<in>set (cacheData ?s). arr (VerLic cc) < length (heap ?s)"
    using readFile_ok [of "file"] by (simp add: wf_store_def list_all_iff)
  have t: "trace ?s = []"
    by (simp add: readFile_def Let_def split: option.splits prod.splits)
  show ?thesis
    using w t by (simp add: grown_def unresolved_def)
qed


section \<open>The cache grows by resolved versions only\<close>

lemma unresolved_append: "unresolved (tr @ evs) = unresolved tr @ unresolved evs"
  by (simp add: unresolved_def)

lemma grown_next:
  assumes g: "grown s0 s"
    and lk: "cacheDataLookup s' = cacheDataLookup s"
    and len: "length (heap s) \<le> length (heap s')"
    and vers: "\<And>sl. arr sl < length (heap s) \<Longrightarrow>
                 map Version (elems (heap s') sl) = map Version (elems (heap s) sl)"
    and cd: "cacheData s' = cacheData s @ add"
    and add: "\<forall>e\<in>set add. arr (VerLic e) < length (heap s') \<and> cacheDataLookup s0 (Path e) = None \<and>
                (\<forall>v\<in>set (map Version (elems (heap s') (VerLic e))). resolved (trace s') (Path e) v)"
    and tr: "trace s' = trace s @ evs"
    and ev: "\<forall>m\<in>set (unresolved evs). mVersion m \<notin> set (lookup_versions s0 (mPath m))"
  shows "grown s0 s'"
proof -
  from g obtain news where
    g1: "cacheDataLookup s = cacheDataLookup s0"
    and g2: "\<forall>cc\<in>set (cacheData s0). arr (VerLic cc) < length (heap s) \<and>
        map Version (elems (heap s) (VerLic cc)) = map Version (elems (heap s0) (VerLic cc))"
    and g3: "cacheData s = cacheData s0 @ news"
    and g4: "\<forall>e\<in>set news. arr (VerLic e) < length (heap s) \<and> cacheDataLookup s0 (Path e) = None \<and>
           (\<forall>v\<in>set (map Version (elems (heap s) (VerLic e))). resolved (trace s) (Path e) v)"
    and g5: "\<forall>m\<in>set (unresolved (trace s)). mVersion m \<notin> set (lookup_versions s0 (mPath m))"
    unfolding grown_def by (elim conjE exE)
  have n1: "cacheDataLookup s' = cacheDataLookup s0" using lk g1 by simp
  have n2: "\<forall>cc\<in>set (cacheData s0). arr (VerLic cc) < length (heap s') \<and>
        map Version (elems (heap s') (VerLic cc)) = map Version (elems (heap s0) (VerLic cc))"
  proof
    fix cc assume "cc \<in> set (cacheData s0)"
    with g2 have a: "arr (VerLic cc) < length (heap s)"
      and v: "map Version (elems (heap s) (VerLic cc)) = map Version (elems (heap s0) (VerLic cc))"
      by simp_all
    from vers [OF a] v a len
    show "arr (VerLic cc) < length (heap s') \<and>
        map Version (elems (heap s') (VerLic cc)) = map Version (elems (heap s0) (VerLic cc))"
      by simp
  qed
  have n3: "cacheData s' = cacheData s0 @ (news @ add)" using cd g3 by simp
  have n4: "\<forall>e\<in>set (news @ add). arr (VerLic e) < length (heap s') \<and> cacheDataLookup s0 (Path e) = None \<and>
           (\<forall>v\<in>set (map Version (elems (heap s') (VerLic e))). resolved (trace s') (Path e) v)"
  proof
    fix e assume "e \<in> set (news @ add)"
    then consider "e \<in> set news" | "e \<in> set add" by auto
    then show "arr (VerLic e) < length (heap s') \<and> cacheDataLookup s0 (Path e) = None \<and>
           (\<forall>v\<in>set (map Version (elems (heap s') (VerLic e))). resolved (trace s') (Path e) v)"
    proof cases
      case 1
      with g4 have a: "arr (VerLic e) < length (heap s)" and l: "cacheDataLookup s0 (Path e) = None"
        and r: "\<forall>v\<in>set (map Version (elems (heap s) (VerLic e))). resolved (trace s) (Path e) v"
        by simp_all
      from r have "\<forall>v\<in>set (map Version (elems (heap s') (VerLic e))). resolved (trace s') (Path e) v"
        by (simp only: vers [OF a] tr) (simp add: resolved_mono)
      with a l len show ?thesis by simp
    next
      case 2
      with add show ?thesis by simp
    qed
  qed
  have n5: "\<forall>m\<in>set (unresolved (trace s')). mVersion m \<notin> set (lookup_versions s0 (mPath m))"
    using g5 ev by (simp add: tr unresolved_append ball_Un)
  have "\<exists>news. cacheData s' = cacheData s0 @ news \<and>
        (\<forall>e\<in>set news. arr (VerLic e) < length (heap s') \<and> cacheDataLookup s0 (Path e) = None \<and>
           (\<forall>v\<in>set (map Version (elems (heap s') (VerLic e))). resolved (trace s') (Path e) v))"
    using n3 n4 by (intro exI [of _ "news @ add"] conjI)
  with n1 n2 n5 show ?thesis
    unfolding grown_def by (intro conjI)
qed


lemma find_in_set: "find P xs = Some x \<Longrightarrow> x \<in> set xs"
  by (induction xs) (auto split: if_splits)

lemma lookup_versions_grown:
  assumes "fresh s0" and "grown s0 s"
  shows "lookup_versions s q = lookup_versions s0 q"
proof (cases "cacheDataLookup s0 q")
  case None
  with assms(2) show ?thesis by (simp add: lookup_versions_def grown_def)
next
  case (Some cca)
  with assms(1) have "find (\<lambda>cc. Path cc = q) (rev (cacheData s0)) = Some cca"
    by (simp add: fresh_def)
  from find_in_set [OF this] have "cca \<in> set (cacheData s0)" by simp
  with assms(2) Some show ?thesis
    by (simp add: lookup_versions_def grown_def)
qed

lemma unresolved_none: "finished evs = [] \<Longrightarrow> unresolved evs = []"
proof (induction evs)
  case Nil
  then show ?case by (simp add: unresolved_def)
next
  case (Cons e evs)
  then show ?case by (cases e) (simp_all add: unresolved_def finished_def)
qed

lemma cache_hit_versions:
  "cacheDataLookup (final (cache_hit m now cca i s)) = cacheDataLookup s \<and>
   cacheData (final (cache_hit m now cca i s)) = cacheData s \<and>
   length (heap (final (cache_hit m now cca i s))) = length (heap s) \<and>
   map Version (elems (heap (final (cache_hit m now cca i s))) sl) = map Version (elems (heap s) sl) \<and>
   (\<exists>evs. trace (final (cache_hit m now cca i s)) = trace s @ evs \<and> unresolved evs = [])"
proof (cases "cacheDataLookup s (mPath m)")
  case None
  then show ?thesis by (simp add: cache_hit_def unresolved_def)
next
  case (Some ccc)
  have upd: "(cacheDataLookup s)(mPath m \<mapsto> ccc) = cacheDataLookup s"
    using Some by (simp add: map_upd_triv)
  have ev: "\<exists>evs. trace s @ [Finish m (Some lic) None] = trace s @ evs \<and> unresolved evs = []" for lic
    by (simp add: unresolved_def)
  have ev0: "\<exists>evs. trace s = trace s @ evs \<and> unresolved evs = []"
    by (simp add: unresolved_def)
  show ?thesis
    using Some upd ev ev0
    by (simp add: cache_hit_def Let_def emit_def versions_touched)
qed


lemma grown_emit:
  assumes "grown s0 s" and "unresolved [e] = []"
  shows "grown s0 (emit e s)"
  using assms(2)
  by (intro grown_next [OF assms(1), where add = "[]" and evs = "[e]"]) (simp_all add: emit_def)

lemma grown_hit:
  assumes "grown s0 s"
  shows "grown s0 (final (cache_hit m now cca i s))"
proof -
  from cache_hit_versions [of m now cca i s]
  obtain evs where tr: "trace (final (cache_hit m now cca i s)) = trace s @ evs" and u: "unresolved evs = []"
    by blast
  show ?thesis
    using tr u cache_hit_versions [of m now cca i s]
    by (intro grown_next [OF assms, where add = "[]" and evs = evs]) simp_all
qed

lemma resolved_last: "mPath m = q \<Longrightarrow> mVersion m = v \<Longrightarrow> resolved (tr @ [Finish m (Some lic) None]) q v"
  by (simp add: resolved_def)

lemma grown_miss:
  assumes f: "fresh s0" and g: "grown s0 s" and v: "mVersion m \<notin> set (lookup_versions s (mPath m))"
  shows "grown s0 (cache_miss env m now s)"
proof (cases rule: cache_miss_cases [of s m env now])
  case (recorded lic evs)
  let ?new = "\<lparr>Version = mVersion m, License = Name lic, SPDX = lSPDX lic,
                Hash = mHash m, Created = now, LastUsed = now\<rparr>"
  let ?hdr = "\<lparr>Path = mPath m, VerLic = \<lparr>arr = length (heap s), len = 1\<rparr>\<rparr>"
  let ?evs = "FindCall m # evs @ [Finish m (Some lic) None]"
  have l0: "cacheDataLookup s0 (mPath m) = None"
    using g recorded(1) by (simp add: grown_def)
  have el: "elems (heap s @ [[?new]]) (VerLic ?hdr) = [?new]"
    by (simp add: elems_def backing_def)
  have res: "resolved (trace s @ ?evs) (mPath m) (mVersion m)"
    using resolved_last [of m "mPath m" "mVersion m" "trace s @ FindCall m # evs" lic] by simp
  have u: "unresolved ?evs = []"
    using unresolved_none [OF recorded(3)] by (simp add: unresolved_def)
  show ?thesis
  proof (rule grown_next [OF g, where add = "[?hdr]" and evs = ?evs])
    show "cacheDataLookup (cache_miss env m now s) = cacheDataLookup s" by (simp add: recorded(2))
    show "length (heap s) \<le> length (heap (cache_miss env m now s))" by (simp add: recorded(2))
    show "map Version (elems (heap (cache_miss env m now s)) sl) = map Version (elems (heap s) sl)"
      if "arr sl < length (heap s)" for sl
      using that by (simp add: recorded(2) elems_alloc)
    show "cacheData (cache_miss env m now s) = cacheData s @ [?hdr]" by (simp add: recorded(2))
    show "\<forall>e\<in>set [?hdr]. arr (VerLic e) < length (heap (cache_miss env m now s)) \<and>
            cacheDataLookup s0 (Path e) = None \<and>
            (\<forall>v\<in>set (map Version (elems (heap (cache_miss env m now s)) (VerLic e))).
               resolved (trace (cache_miss env m now s)) (Path e) v)"
      using l0 el res by (simp add: recorded(2))
    show "trace (cache_miss env m now s) = trace s @ ?evs" by (simp add: recorded(2))
    show "\<forall>m\<in>set (unresolved ?evs). mVersion m \<notin> set (lookup_versions s0 (mPath m))"
      by (simp only: u) simp
  qed
next
  case (dropped lic evs c2)
  let ?evs = "FindCall m # evs @ [Finish m (Some lic) None]"
  have u: "unresolved ?evs = []"
    using unresolved_none [OF dropped(3)] by (simp add: unresolved_def)
  show ?thesis
  proof (rule grown_next [OF g, where add = "[]" and evs = ?evs])
    show "cacheDataLookup (cache_miss env m now s) = cacheDataLookup s" by (simp add: dropped(2))
    show "length (heap s) \<le> length (heap (cache_miss env m now s))" by (simp add: dropped(2))
    show "map Version (elems (heap (cache_miss env m now s)) sl) = map Version (elems (heap s) sl)"
      if "arr sl < length (heap s)" for sl
      using that by (simp add: dropped(2) elems_alloc)
    show "cacheData (cache_miss env m now s) = cacheData s @ []" by (simp add: dropped(2))
    show "\<forall>e\<in>set []. arr (VerLic e) < length (heap (cache_miss env m now s)) \<and>
            cacheDataLookup s0 (Path e) = None \<and>
            (\<forall>v\<in>set (map Version (elems (heap (cache_miss env m now s)) (VerLic e))).
               resolved (trace (cache_miss env m now s)) (Path e) v)"
      by simp
    show "trace (cache_miss env m now s) = trace s @ ?evs" by (simp add: dropped(2))
    show "\<forall>m\<in>set (unresolved ?evs). mVersion m \<notin> set (lookup_versions s0 (mPath m))"
      by (simp only: u) simp
  qed
next
  case (failed lic err evs)
  let ?evs = "FindCall m # evs @ [Finish m lic err]"
  have u: "unresolved ?evs = [m]"
    using unresolved_none [OF failed(3)] failed(1) by (auto simp: unresolved_def)
  have v0: "mVersion m \<notin> set (lookup_versions s0 (mPath m))"
    using v lookup_versions_grown [OF f g] by simp
  show ?thesis
  proof (rule grown_next [OF g, where add = "[]" and evs = ?evs])
    show "cacheDataLookup (cache_miss env m now s) = cacheDataLookup s" by (simp add: failed(2))
    show "length (heap s) \<le> length (heap (cache_miss env m now s))" by (simp add: failed(2))
    show "map Version (elems (heap (cache_miss env m now s)) sl) = map Version (elems (heap s) sl)"
      if "arr sl < length (heap s)" for sl
      by (simp add: failed(2))
    show "cacheData (cache_miss env m now s) = cacheData s @ []" by (simp add: failed(2))
    show "\<forall>e\<in>set []. arr (VerLic e) < length (heap (cache_miss env m now s)) \<and>
            cacheDataLookup s0 (Path e) = None \<and>
            (\<forall>v\<in>set (map Version (elems (heap (cache_miss env m now s)) (VerLic e))).
               resolved (trace (cache_miss env m now s)) (Path e) v)"
      by simp
    show "trace (cache_miss env m now s) = trace s @ ?evs" by (simp add: failed(2))
    show "\<forall>m\<in>set (unresolved ?evs). mVersion m \<notin> set (lookup_versions s0 (mPath m))"
      using v0 by (simp only: u) simp
  qed
qed

lemma grown_task:
  assumes c: "flagCache env \<noteq> []" and f: "fresh s0" and g: "grown s0 s"
  shows "grown s0 (final (module_task env m now s))"
  using c
proof (cases rule: module_task_lookup_cases [of env m now s])
  case exit
  then show ?thesis using grown_emit [OF g, of "Start m"] by (simp add: unresolved_def)
next
  case (hit cca i)
  have "grown s0 (emit (Start m) s)"
    using grown_emit [OF g, of "Start m"] by (simp add: unresolved_def)
  from grown_hit [OF this] hit show ?thesis by simp
next
  case miss
  have e: "grown s0 (emit (Start m) s)"
    using grown_emit [OF g, of "Start m"] by (simp add: unresolved_def)
  have v: "mVersion m \<notin> set (lookup_versions (emit (Start m) s) (mPath m))"
    using miss(2) by (simp add: lookup_versions_def emit_def)
  from grown_miss [OF f e v] miss(1) show ?thesis by simp
qed


section \<open>From one run to the next\<close>

lemma grown_count: "grown s0 (s\<lparr>count := c\<rparr>) = grown s0 s"
  by (simp add: grown_def)

lemma grown_main: "grown s0 (st p) \<Longrightarrow> grown s0 (st (main_step env p))"
  by (auto simp: main_step_def grown_count split: phase.splits list.splits)

lemma grown_task_step:
  assumes "flagCache env \<noteq> []" and "fresh s0" and "grown s0 (st p)"
  shows "grown s0 (st (task_step env i now p))"
proof -
  obtain m c where t: "tasks p ! i = (m, c)" by (cases "tasks p ! i")
  show ?thesis
    using assms(3) t grown_task [OF assms, of m now]
    by (cases c; cases "module_task env m now (st p)")
       (auto simp: task_step_def split: option.splits)
qed

lemma grown_step:
  "flagCache env \<noteq> [] \<Longrightarrow> fresh s0 \<Longrightarrow> grown s0 (st p) \<Longrightarrow> grown s0 (st (step env a p))"
  by (cases a) (simp_all add: step_def grown_main grown_task_step)

lemma grown_exec:
  "flagCache env \<noteq> [] \<Longrightarrow> fresh s0 \<Longrightarrow> grown s0 (st p) \<Longrightarrow> grown s0 (st (exec env sched p))"
  by (induction sched arbitrary: p) (simp_all add: grown_step)

lemma grown_run:
  assumes "flagCache env \<noteq> []"
  shows "fresh (st (boot env file mods)) \<and>
         grown (st (boot env file mods)) (st (exec env sched (boot env file mods)))"
proof -
  have f: "fresh (st (boot env file mods))"
    using boot_versions [OF assms] by simp
  have "grown (st (boot env file mods)) (st (boot env file mods))"
    using assms grown_boot [of "file"] by (simp add: boot_def)
  from grown_exec [OF assms f this] f show ?thesis by simp
qed

lemma find_append: "find P (xs @ ys) = (case find P xs of None \<Rightarrow> find P ys | Some x \<Rightarrow> Some x)"
  by (induction xs) auto

lemma written_versions:
  assumes f: "fresh s0" and g: "grown s0 s" and v: "v \<in> set (file_versions (marshal s) q)"
  shows "v \<in> set (lookup_versions s0 q) \<or> resolved (trace s) q v"
proof -
  from g obtain news where
    g2: "\<forall>cc\<in>set (cacheData s0). arr (VerLic cc) < length (heap s) \<and>
        map Version (elems (heap s) (VerLic cc)) = map Version (elems (heap s0) (VerLic cc))"
    and g3: "cacheData s = cacheData s0 @ news"
    and g4: "\<forall>e\<in>set news. arr (VerLic e) < length (heap s) \<and> cacheDataLookup s0 (Path e) = None \<and>
           (\<forall>v\<in>set (map Version (elems (heap s) (VerLic e))). resolved (trace s) (Path e) v)"
    unfolding grown_def by (elim conjE exE)
  show ?thesis
  proof (cases "find (\<lambda>cc. Path cc = q) (rev news)")
    case None
    then have fd: "find (\<lambda>cc. Path cc = q) (rev (cacheData s)) = cacheDataLookup s0 q"
      using f by (simp add: g3 find_append fresh_def)
    show ?thesis
    proof (cases "cacheDataLookup s0 q")
      case None
      with fd v show ?thesis by (simp add: file_versions_marshal)
    next
      case (Some cc)
      with f have "find (\<lambda>cc. Path cc = q) (rev (cacheData s0)) = Some cc"
        by (simp add: fresh_def)
      from find_in_set [OF this] have "cc \<in> set (cacheData s0)" by simp
      with g2 have "map Version (elems (heap s) (VerLic cc)) = map Version (elems (heap s0) (VerLic cc))"
        by simp
      with fd Some v show ?thesis
        by (simp add: file_versions_marshal lookup_versions_def)
    qed
  next
    case (Some e)
    from find_in_set [OF Some] have e: "e \<in> set news" by simp
    from Some have p: "Path e = q" by (auto simp: find_Some_iff)
    from Some have "find (\<lambda>cc. Path cc = q) (rev (cacheData s)) = Some e"
      by (simp add: g3 find_append)
    with v have "v \<in> set (map Version (elems (heap s) (VerLic e)))"
      by (simp add: file_versions_marshal)
    with g4 e p show ?thesis by blast
  qed
qed


lemma cache_miss_calls_Find:
  "\<exists>evs. trace (cache_miss env m now s) = trace s @ FindCall m # evs"
  by (cases rule: cache_miss_cases [of s m env now]) simp_all

lemma unresolved_pair_looked_up_again:
  assumes c1: "flagCache env \<noteq> []" and c2: "flagCache env' \<noteq> []"
    and closed: "mainpc (exec env sched (boot env file mods)) = Closed"
    and failed: "m \<in> set (unresolved (trace (st (exec env sched (boot env file mods)))))"
    and pair: "\<not> resolved (trace (st (exec env sched (boot env file mods)))) (mPath m) (mVersion m)"
    and p2: "p2 = exec env' sched' (boot env' (disk (exec env sched (boot env file mods))) mods')"
    and run: "exit_code p2 = None" and i: "i < length (tasks p2)" and t: "tasks p2 ! i = (m, Holding)"
  shows "FindCall m \<in> set (drop (length (trace (st p2))) (trace (st (step env' (Task i now) p2))))"
proof -
  let ?p1 = "exec env sched (boot env file mods)"
  let ?s0 = "st (boot env file mods)"
  from grown_run [OF c1, of "file" mods sched]
  have f0: "fresh ?s0" and g1: "grown ?s0 (st ?p1)" by simp_all
  from g1 failed have h: "mVersion m \<notin> set (lookup_versions ?s0 (mPath m))"
    by (simp add: grown_def)
  have nv: "mVersion m \<notin> set (file_versions (marshal (st ?p1)) (mPath m))"
    using written_versions [OF f0 g1, of "mVersion m" "mPath m"] h pair by blast
  have d: "disk ?p1 = Some (marshal (st ?p1))"
    using written_file_origin [of "file" env sched mods] c1 closed by simp
  let ?b2 = "boot env' (Some (marshal (st ?p1))) mods'"
  from grown_run [OF c2, of "Some (marshal (st ?p1))" mods' sched']
  have f2: "fresh (st ?b2)" and g2: "grown (st ?b2) (st p2)"
    by (simp_all add: p2 d)
  have "lookup_versions (st p2) (mPath m) = lookup_versions (st ?b2) (mPath m)"
    by (rule lookup_versions_grown [OF f2 g2])
  also have "\<dots> = file_versions (marshal (st ?p1)) (mPath m)"
    using boot_versions [OF c2, of "Some (marshal (st ?p1))" mods' "mPath m"] by simp
  finally have "mVersion m \<notin> set (lookup_versions (st p2) (mPath m))"
    using nv by simp
  from module_task_unknown_version [OF c2 this, of now]
  have mt: "module_task env' m now (st p2) = Returned (cache_miss env' m now (emit (Start m) (st p2)))" .
  from cache_miss_calls_Find [of env' m now "emit (Start m) (st p2)"]
  obtain evs where "trace (cache_miss env' m now (emit (Start m) (st p2))) =
      trace (st p2) @ Start m # FindCall m # evs"
    by (auto simp: emit_def)
  then show ?thesis
    using run i t mt by (simp add: step_def task_step_def)
qed

text \<open>
  C9. With \<open>-cache\<close> given, in every state of every run each sub-record that
  \<open>cacheData\<close> holds is a sub-record of the file read at the start (but for
  \<open>LastUsed\<close>) or the record of a report with a license and no error, and the file the
  run writes at its end is that \<open>cacheData\<close>. A goroutine changes
  \<open>cacheData.Modules\<close> only by appending one entry with the one sub-record of a lookup
  that gave a license and no error, the license it reports. A goroutine that reports no
  license or an error has changed neither \<open>cacheData\<close> nor \<open>cacheDataLookup\<close> nor any
  array of sub-records; it has called \<open>license.Find\<close>, and a goroutine for the same
  module that runs on the cache as it was left calls \<open>license.Find\<close> again. And from
  one run to the next: when a run \<open>p1\<close> has ended regularly, has left the module \<open>m\<close>
  unresolved and has resolved no module of the path and version of \<open>m\<close>, then in any
  run \<open>p2\<close> on the cache file that \<open>p1\<close> wrote, the goroutine of \<open>m\<close> calls
  \<open>license.Find\<close> when it runs its body.
\<close>

theorem cache_records_only_successes:
  assumes "flagCache env \<noteq> []"
    and "p1 = exec env sched (boot env file mods)"
    and "p2 = exec env' sched' (boot env' (disk p1) mods')"
  shows "records_ok (case file of None \<Rightarrow> [] | Some js \<Rightarrow> js) (trace (st p1)) (marshal (st p1)) \<and>
         (mainpc p1 = Closed \<longrightarrow> disk p1 = Some (marshal (st p1))) \<and>
         (cacheData (final (module_task env m now s)) \<noteq> cacheData s \<longrightarrow>
            (\<exists>lic. last (trace (final (module_task env m now s))) = Finish m (Some lic) None \<and>
               cacheData (final (module_task env m now s)) =
                 cacheData s @ [\<lparr>Path = mPath m, VerLic = \<lparr>arr = length (heap s), len = 1\<rparr>\<rparr>] \<and>
               elems (heap (final (module_task env m now s))) \<lparr>arr = length (heap s), len = 1\<rparr> =
                 [\<lparr>Version = mVersion m, License = Name lic, SPDX = lSPDX lic,
                   Hash = mHash m, Created = now, LastUsed = now\<rparr>])) \<and>
         (is_Returned (module_task env m now s) \<and>
          last (trace (final (module_task env m now s))) = Finish m lic err \<and>
          (lic = None \<or> err \<noteq> None) \<longrightarrow>
            cacheData (final (module_task env m now s)) = cacheData s \<and>
            cacheDataLookup (final (module_task env m now s)) = cacheDataLookup s \<and>
            heap (final (module_task env m now s)) = heap s \<and>
            marshal (final (module_task env m now s)) = marshal s \<and>
            FindCall m \<in> set (drop (length (trace s)) (trace (final (module_task env m now s)))) \<and>
            is_Returned (module_task env m now' (final (module_task env m now s))) \<and>
            FindCall m \<in> set (drop (length (trace (final (module_task env m now s))))
                                 (trace (final (module_task env m now' (final (module_task env m now s))))))) \<and>
         (flagCache env' \<noteq> [] \<and> mainpc p1 = Closed \<and>
          m \<in> set (unresolved (trace (st p1))) \<and>
          \<not> resolved (trace (st p1)) (mPath m) (mVersion m) \<and>
          exit_code p2 = None \<and> i < length (tasks p2) \<and> tasks p2 ! i = (m, Holding) \<longrightarrow>
            FindCall m \<in> set (drop (length (trace (st p2))) (trace (st (step env' (Task i now') p2)))))"
proof -
  have run: "records_ok (case file of None \<Rightarrow> [] | Some js \<Rightarrow> js) (trace (st p1)) (marshal (st p1)) \<and>
         (mainpc p1 = Closed \<longrightarrow> disk p1 = Some (marshal (st p1)))"
    using written_file_origin [of "file" env sched mods] assms(1) by (simp add: assms(2))
  have next_run: "FindCall m \<in> set (drop (length (trace (st p2))) (trace (st (step env' (Task i now') p2))))"
    if "flagCache env' \<noteq> [] \<and> mainpc p1 = Closed \<and>
          m \<in> set (unresolved (trace (st p1))) \<and>
          \<not> resolved (trace (st p1)) (mPath m) (mVersion m) \<and>
          exit_code p2 = None \<and> i < length (tasks p2) \<and> tasks p2 ! i = (m, Holding)"
    using that assms(3)
    by (intro unresolved_pair_looked_up_again [OF assms(1), of env' sched "file" mods m p2 sched' mods' i now'])
       (simp_all add: assms(2))
  show ?thesis
    using run next_run task_records_only_successes [OF assms(1), of m now s lic err now']
    by blast
qed

lemma ex_unknown_fails:
  "is_Returned (module_task ex_cached ex_unknown 7 (ex_store ex_file_h1)) \<and>
   last (trace (final (module_task ex_cached ex_unknown 7 (ex_store ex_file_h1)))) =
     Finish ex_unknown None (Some ''not found'')"
  by (simp add: ex_defs ex_unknown_def run_defs task_defs Let_def)

lemma ex_a_recorded:
  "cacheData (final (module_task ex_cached ex_a 7 (ex_store []))) \<noteq> cacheData (ex_store [])"
  by (simp add: ex_defs run_defs task_defs)

lemma ex_failed_run_eval:
  "mainpc ex_failed_run = Closed \<and>
   trace (st ex_failed_run) =
     [Start ex_unknown, FindCall ex_unknown, TranslateCall ex_unknown, FindCall ex_unknown,
      Finish ex_unknown None (Some ''not found'')] \<and>
   disk ex_failed_run = Some ex_file_h1"
  by (simp add: ex_failed_run_def ex_defs ex_unknown_def run_defs task_defs Let_def)

lemma ex_next_run_eval:
  "exit_code ex_next_run = None \<and> tasks ex_next_run = [(ex_unknown, Holding)] \<and> trace (st ex_next_run) = []"
  by (simp add: ex_next_run_def ex_failed_run_eval ex_defs ex_unknown_def run_defs)

theorem cache_records_only_successes_witness:
  "flagCache ex_cached \<noteq> [] \<and>
   is_Returned (module_task ex_cached ex_unknown 7 (ex_store ex_file_h1)) \<and>
   last (trace (final (module_task ex_cached ex_unknown 7 (ex_store ex_file_h1)))) =
     Finish ex_unknown None (Some ''not found'') \<and>
   marshal (final (module_task ex_cached ex_unknown 7 (ex_store ex_file_h1))) = marshal (ex_store ex_file_h1) \<and>
   FindCall ex_unknown \<in> set (drop (length (trace (final (module_task ex_cached ex_unknown 7 (ex_store ex_file_h1)))))
     (trace (final (module_task ex_cached ex_unknown 8 (final (module_task ex_cached ex_unknown 7 (ex_store ex_file_h1))))))) \<and>
   cacheData (final (module_task ex_cached ex_a 7 (ex_store []))) \<noteq> cacheData (ex_store []) \<and>
   (\<exists>lic. last (trace (final (module_task ex_cached ex_a 7 (ex_store [])))) = Finish ex_a (Some lic) None) \<and>
   mainpc ex_first_run = Closed \<and>
   disk ex_first_run = Some (marshal (st ex_first_run)) \<and>
   records_ok [] (trace (st ex_first_run)) (marshal (st ex_first_run)) \<and>
   mainpc ex_failed_run = Closed \<and>
   ex_unknown \<in> set (unresolved (trace (st ex_failed_run))) \<and>
   \<not> resolved (trace (st ex_failed_run)) (mPath ex_unknown) (mVersion ex_unknown) \<and>
   tasks ex_next_run ! 0 = (ex_unknown, Holding) \<and>
   FindCall ex_unknown \<in> set (trace (st (step ex_cached (Task 0 9) ex_next_run)))"
proof -
  have c: "flagCache ex_cached \<noteq> []" by (simp add: ex_cached_def)
  have closed: "mainpc ex_first_run = Closed"
    using ex_first_run_eval by simp
  have run: "disk ex_first_run = Some (marshal (st ex_first_run)) \<and>
      records_ok [] (trace (st ex_first_run)) (marshal (st ex_first_run))"
    using cache_records_only_successes [OF c ex_first_run_def refl] closed
    by simp
  have failed: "mainpc ex_failed_run = Closed \<and>
      ex_unknown \<in> set (unresolved (trace (st ex_failed_run))) \<and>
      \<not> resolved (trace (st ex_failed_run)) (mPath ex_unknown) (mVersion ex_unknown)"
    by (simp add: ex_failed_run_eval unresolved_def resolved_def)
  have holding: "exit_code ex_next_run = None \<and> 0 < length (tasks ex_next_run) \<and>
      tasks ex_next_run ! 0 = (ex_unknown, Holding) \<and> trace (st ex_next_run) = []"
    by (simp add: ex_next_run_eval)
  have "FindCall ex_unknown \<in> set (drop (length (trace (st ex_next_run)))
      (trace (st (step ex_cached (Task 0 9) ex_next_run))))"
    using cache_records_only_successes [OF c ex_failed_run_def ex_next_run_def,
        where m = ex_unknown and i = 0 and now' = 9] c failed holding
    by blast
  then have again: "FindCall ex_unknown \<in> set (trace (st (step ex_cached (Task 0 9) ex_next_run)))"
    using holding by simp
  show ?thesis
    using cache_records_only_successes [OF c refl refl, where m = ex_unknown and now = 7
        and s = "ex_store ex_file_h1" and lic = None and err = "Some ''not found''" and now' = 8]
      cache_records_only_successes [OF c refl refl, where m = ex_a and now = 7 and s = "ex_store []"]
      ex_unknown_fails ex_a_recorded c run closed failed holding again
    by blast
qed

end
